theory Spec2Isabelle
  imports Main "HOL-Library.Sublist"
begin

section \<open>The daisy-chain wrapper: data model\<close>

text \<open>
  A chunk is one Python 2 byte string handed to \<^verbatim>\<open>BufferWrapper.write\<close>.
  Lengths and positions are Python integers, hence \<open>int\<close>.
\<close>

type_synonym chunk = string

text \<open>\<^verbatim>\<open>DAISY_CHAIN_CHUNK_SIZE = 1024*1024*100\<close>\<close>

definition DAISY_CHAIN_CHUNK_SIZE :: int where
  "DAISY_CHAIN_CHUNK_SIZE = 1024 * 1024 * 100"

text \<open>The values of \<^verbatim>\<open>os.SEEK_SET\<close> and \<^verbatim>\<open>os.SEEK_END\<close>.\<close>

definition SEEK_SET :: int where
  "SEEK_SET = 0"

definition SEEK_END :: int where
  "SEEK_END = 2"

datatype error = BadRequestException | IOError | IndexError

text \<open>
  The control point of the download thread inside \<^verbatim>\<open>PerformDownload\<close>:
  \<^item> \<open>AtLoop start_byte\<close>: about to evaluate the \<^verbatim>\<open>while\<close> condition;
  \<^item> \<open>InGet kind start_byte pending passed\<close>: inside a call of \<^verbatim>\<open>GetObjectMedia\<close>
    (with an \<^verbatim>\<open>end_byte\<close> for \<open>Ranged\<close>, without for \<open>OpenEnded\<close>); \<open>pending\<close> are the
    chunks the fetch client has still to hand to \<^verbatim>\<open>BufferWrapper.write\<close>, the head being
    the argument of the current call of \<^verbatim>\<open>write\<close>, and \<open>passed\<close> tells whether that
    call has left its waiting loop;
  \<^item> \<open>Exited\<close>: the thread is no longer alive.
\<close>

datatype fetch_kind = Ranged | OpenEnded

datatype thread =
    AtLoop int
  | InGet fetch_kind int "chunk list" bool
  | Exited

text \<open>The attributes of \<^verbatim>\<open>DaisyChainWrapper\<close> that the methods read or write.\<close>

record bridge =
  position :: int
  buffer :: "chunk list"
  bytes_buffered :: int
  max_buffer_size :: int
  last_position :: int
  last_data :: "chunk option"
  src_obj_size :: int
  download_thread :: thread
  stop_download :: bool

text \<open>
  How a call of a method ends: it returns a value, it raises, or it waits in a polling
  loop that only the other thread can release. The state after the call is part of the
  outcome, also when the call raises.
\<close>

datatype 'a outcome = Returns 'a bridge | Raises error bridge | Blocks

text \<open>
  The external fetch client, taken as a parameter: for a request
  \<^verbatim>\<open>GetObjectMedia(start_byte, end_byte)\<close> (\<open>None\<close> when \<^verbatim>\<open>end_byte\<close> is omitted) the
  list of chunks that it writes into the sink, in order.
\<close>

type_synonym fetcher = "int \<Rightarrow> int option \<Rightarrow> chunk list"

section \<open>Construction\<close>

text \<open>
  \<^verbatim>\<open>__init__\<close>, ending with \<^verbatim>\<open>StartDownloadThread()\<close> whose \<^verbatim>\<open>start_byte\<close> defaults
  to 0. A fresh \<^verbatim>\<open>threading.Event\<close> is not set.
\<close>

definition StartDownloadThread :: "int \<Rightarrow> bridge \<Rightarrow> bridge" where
  "StartDownloadThread start_byte b = b\<lparr>download_thread := AtLoop start_byte\<rparr>"

definition init :: "int \<Rightarrow> bridge" where
  "init src_size = StartDownloadThread 0
     \<lparr>position = 0, buffer = [], bytes_buffered = 0, max_buffer_size = 1024 * 1024,
      last_position = 0, last_data = None, src_obj_size = src_size,
      download_thread = Exited, stop_download = False\<rparr>"

section \<open>The download thread\<close>

text \<open>
  \<^verbatim>\<open>BufferWrapper.write\<close>: the test of the waiting loop and the block that appends, each
  under the lock.
\<close>

definition write_may_proceed :: "bridge \<Rightarrow> bool" where
  "write_may_proceed b = (bytes_buffered b < max_buffer_size b)"

definition write_append :: "chunk \<Rightarrow> bridge \<Rightarrow> bridge" where
  "write_append data b =
     b\<lparr>buffer := buffer b @ [data],
       bytes_buffered := bytes_buffered b + int (length data)\<rparr>"

text \<open>
  One atomic step of the download thread. The thread reads and clears the stop event
  only after a ranged request has returned; after the open-ended request it ends.
\<close>

fun thread_step :: "fetcher \<Rightarrow> thread \<Rightarrow> bridge \<Rightarrow> bridge" where
  "thread_step fetch (AtLoop start_byte) b =
     (if start_byte + DAISY_CHAIN_CHUNK_SIZE < src_obj_size b
      then b\<lparr>download_thread :=
             InGet Ranged start_byte
               (fetch start_byte (Some (start_byte + DAISY_CHAIN_CHUNK_SIZE - 1))) False\<rparr>
      else b\<lparr>download_thread := InGet OpenEnded start_byte (fetch start_byte None) False\<rparr>)"
| "thread_step fetch (InGet kind start_byte (data # rest) False) b =
     (if write_may_proceed b
      then b\<lparr>download_thread := InGet kind start_byte (data # rest) True\<rparr>
      else b)"
| "thread_step fetch (InGet kind start_byte (data # rest) True) b =
     (write_append data b)\<lparr>download_thread := InGet kind start_byte rest False\<rparr>"
| "thread_step fetch (InGet Ranged start_byte [] passed) b =
     (if stop_download b
      then b\<lparr>stop_download := False, download_thread := Exited\<rparr>
      else b\<lparr>download_thread := AtLoop (start_byte + DAISY_CHAIN_CHUNK_SIZE)\<rparr>)"
| "thread_step fetch (InGet OpenEnded start_byte [] passed) b =
     b\<lparr>download_thread := Exited\<rparr>"
| "thread_step fetch Exited b = b"

definition download_step :: "fetcher \<Rightarrow> bridge \<Rightarrow> bridge" where
  "download_step fetch b = thread_step fetch (download_thread b) b"

section \<open>The consumer's interface\<close>

text \<open>
  \<^verbatim>\<open>read\<close>. \<open>tbs\<close> is \<^verbatim>\<open>TRANSFER_BUFFER_SIZE\<close> of \<^verbatim>\<open>gslib.util\<close>, a parameter here.
  The waiting loop and the block that pops are one step: between them only the download
  thread runs, and it only appends, so the queue stays non-empty.
\<close>

definition read :: "int \<Rightarrow> int option \<Rightarrow> bridge \<Rightarrow> chunk outcome" where
  "read tbs amt b =
     (if position b = src_obj_size b \<or> amt = Some 0 then Returns [] b
      else case amt of
        None \<Rightarrow> Raises BadRequestException b
      | Some a \<Rightarrow>
          if a > tbs then Raises BadRequestException b
          else (case buffer b of
            [] \<Rightarrow> Blocks
          | data # rest \<Rightarrow>
              let data_len = int (length data);
                  b' = b\<lparr>buffer := rest,
                         last_position := position b,
                         last_data := Some data,
                         position := position b + data_len,
                         bytes_buffered := bytes_buffered b - data_len\<rparr>
              in if data_len > a then Raises BadRequestException b' else Returns data b'))"

definition tell :: "bridge \<Rightarrow> int" where
  "tell b = position b"

text \<open>
  \<^verbatim>\<open>seek\<close> up to the test of \<^verbatim>\<open>restart_download\<close>: the value returned is that flag.
  Python's \<^verbatim>\<open>if offset:\<close> holds for a non-zero integer, \<^verbatim>\<open>if self.last_data:\<close> for a
  string that is neither \<^verbatim>\<open>None\<close> nor empty.
\<close>

definition seek :: "int \<Rightarrow> int \<Rightarrow> bridge \<Rightarrow> bool outcome" where
  "seek offset whence b =
     (if whence = SEEK_END then
        (if offset \<noteq> 0 then Raises BadRequestException b
         else Returns False
                (b\<lparr>last_position := position b,
                   last_data := None,
                   position := src_obj_size b\<rparr>))
      else if whence = SEEK_SET then
        (if offset = position b then Returns False b
         else if offset = last_position b then
           (case last_data b of
              None \<Rightarrow> Returns False (b\<lparr>position := last_position b\<rparr>)
            | Some d \<Rightarrow>
                if d \<noteq> [] then
                  Returns False
                    (b\<lparr>position := last_position b,
                       buffer := d # buffer b,
                       bytes_buffered := bytes_buffered b + int (length d)\<rparr>)
                else Returns False (b\<lparr>position := last_position b\<rparr>))
         else Returns True b)
      else Raises IOError b)"

text \<open>
  The restart block of \<^verbatim>\<open>seek\<close>. The inner loop
  \<^verbatim>\<open>while self.bytes_buffered: self.bytes_buffered -= len(self.buffer.popleft())\<close>
  raises \<^verbatim>\<open>IndexError\<close> when the queue is empty and the counter is not zero. The
  result is the error, if any, with the queue and the counter the loop leaves.
\<close>

fun drain :: "chunk list \<Rightarrow> int \<Rightarrow> error option \<times> chunk list \<times> int" where
  "drain [] n = (if n = 0 then (None, [], n) else (Some IndexError, [], n))"
| "drain (d # ds) n = (if n = 0 then (None, d # ds, n) else drain ds (n - int (length d)))"

definition seek_finish :: "int \<Rightarrow> bridge \<Rightarrow> bridge" where
  "seek_finish offset b =
     StartDownloadThread offset
       (b\<lparr>position := offset, buffer := [], bytes_buffered := 0,
          last_position := 0, last_data := None\<rparr>)"

section \<open>The two threads together\<close>

text \<open>
  The control point of the consumer: outside any call, or inside the restart block of
  \<^verbatim>\<open>seek offset\<close>: before \<^verbatim>\<open>stop_download.set()\<close>, at the test
  \<^verbatim>\<open>download_thread.is_alive()\<close>, or before the block that drains.
\<close>

datatype caller = Idle | AtSignal int | AtAliveTest int | AtDrain int

record system =
  bridge :: bridge
  caller :: caller

datatype event =
    DownloadThread
  | CallRead "int option"
  | CallTell
  | CallSeek int int
  | SeekStep

text \<open>
  One step of the system; \<open>None\<close> when the event cannot happen in the state: the
  thread has ended, the consumer is inside another call, or the call would wait.
  An exception leaves the consumer outside any call, with the state the call left.
\<close>

fun step :: "fetcher \<Rightarrow> int \<Rightarrow> event \<Rightarrow> system \<Rightarrow> system option" where
  "step fetch tbs DownloadThread s =
     (if download_thread (bridge s) = Exited then None
      else Some (s\<lparr>bridge := download_step fetch (bridge s)\<rparr>))"
| "step fetch tbs (CallRead amt) s =
     (if caller s \<noteq> Idle then None
      else case read tbs amt (bridge s) of
        Returns data b' \<Rightarrow> Some (s\<lparr>bridge := b'\<rparr>)
      | Raises e b' \<Rightarrow> Some (s\<lparr>bridge := b'\<rparr>)
      | Blocks \<Rightarrow> None)"
| "step fetch tbs CallTell s = (if caller s \<noteq> Idle then None else Some s)"
| "step fetch tbs (CallSeek offset whence) s =
     (if caller s \<noteq> Idle then None
      else case seek offset whence (bridge s) of
        Returns restart_download b' \<Rightarrow>
          Some (s\<lparr>bridge := b',
                  caller := (if restart_download then AtSignal offset else Idle)\<rparr>)
      | Raises e b' \<Rightarrow> Some (s\<lparr>bridge := b'\<rparr>)
      | Blocks \<Rightarrow> None)"
| "step fetch tbs SeekStep s =
     (case caller s of
        Idle \<Rightarrow> None
      | AtSignal offset \<Rightarrow>
          Some (s\<lparr>bridge := (bridge s)\<lparr>stop_download := True\<rparr>,
                  caller := AtAliveTest offset\<rparr>)
      | AtAliveTest offset \<Rightarrow>
          if download_thread (bridge s) \<noteq> Exited then Some (s\<lparr>caller := AtDrain offset\<rparr>)
          else Some (s\<lparr>bridge := seek_finish offset (bridge s), caller := Idle\<rparr>)
      | AtDrain offset \<Rightarrow>
          (case drain (buffer (bridge s)) (bytes_buffered (bridge s)) of
             (raised, buf, n) \<Rightarrow>
               Some (s\<lparr>bridge := (bridge s)\<lparr>buffer := buf, bytes_buffered := n\<rparr>,
                       caller := (case raised of
                                    None \<Rightarrow> AtAliveTest offset
                                  | Some e \<Rightarrow> Idle)\<rparr>)))"

fun run :: "fetcher \<Rightarrow> int \<Rightarrow> event list \<Rightarrow> system \<Rightarrow> system option" where
  "run fetch tbs [] s = Some s"
| "run fetch tbs (e # es) s =
     (case step fetch tbs e s of None \<Rightarrow> None | Some s' \<Rightarrow> run fetch tbs es s')"

definition new_system :: "int \<Rightarrow> system" where
  "new_system src_size = \<lparr>bridge = init src_size, caller = Idle\<rparr>"

section \<open>The download thread as a whole\<close>

text \<open>
  \<^verbatim>\<open>PerformDownload\<close> from its first line to its return, as a function that gives the
  requests it issues. A request is \<^verbatim>\<open>(start_byte, end_byte)\<close>, with \<open>None\<close> for an
  omitted \<^verbatim>\<open>end_byte\<close>. The stop event belongs to the other thread, so what the thread
  observes is an input: \<open>is_set i\<close> is the answer of the \<open>i\<close>-th call of
  \<^verbatim>\<open>stop_download.is_set()\<close>. The result is the list of requests in the order issued,
  and whether \<^verbatim>\<open>stop_download.clear()\<close> was called.
\<close>

type_synonym request = "int \<times> int option"

function PerformDownload :: "int \<Rightarrow> (nat \<Rightarrow> bool) \<Rightarrow> nat \<Rightarrow> int \<Rightarrow> request list \<times> bool" where
  "PerformDownload src_size is_set i start_byte =
     (if start_byte + DAISY_CHAIN_CHUNK_SIZE < src_size then
        (if is_set i
         then ([(start_byte, Some (start_byte + DAISY_CHAIN_CHUNK_SIZE - 1))], True)
         else (case PerformDownload src_size is_set (Suc i)
                      (start_byte + DAISY_CHAIN_CHUNK_SIZE) of
                 (reqs, cleared) \<Rightarrow>
                   ((start_byte, Some (start_byte + DAISY_CHAIN_CHUNK_SIZE - 1)) # reqs,
                    cleared)))
      else ([(start_byte, None)], False))"
  by pat_completeness auto
termination
  by (relation "measure (\<lambda>(src_size, is_set, i, start_byte). nat (src_size - start_byte))")
     (auto simp: DAISY_CHAIN_CHUNK_SIZE_def)

declare PerformDownload.simps [simp del]

text \<open>The \<open>i\<close>-th window of the range size counted from \<open>start\<close>, as a request.\<close>

definition window :: "int \<Rightarrow> nat \<Rightarrow> request" where
  "window start i =
     (start + int i * DAISY_CHAIN_CHUNK_SIZE,
      Some (start + int i * DAISY_CHAIN_CHUNK_SIZE + DAISY_CHAIN_CHUNK_SIZE - 1))"

section \<open>A fetch client\<close>

text \<open>
  Modelled from the spec: the ranged-fetch operation of the external fetch client
  (\<^verbatim>\<open>gsutil_api.GetObjectMedia\<close>), which is not part of this module. For a byte range
  \<open>[start, end]\<close> (to the end of the object when \<open>end\<close> is omitted) it writes the bytes
  of that range into the sink, here in pieces of at most \<open>k\<close> bytes.
\<close>

definition byte_range :: "string \<Rightarrow> int \<Rightarrow> int option \<Rightarrow> string" where
  "byte_range src start end_byte =
     (case end_byte of
        None \<Rightarrow> drop (nat start) src
      | Some e \<Rightarrow> take (nat (e + 1 - start)) (drop (nat start) src))"

function chunks_of :: "nat \<Rightarrow> string \<Rightarrow> chunk list" where
  "chunks_of k xs =
     (if k = 0 \<or> xs = [] then [] else take k xs # chunks_of k (drop k xs))"
  by pat_completeness auto
termination
  by (relation "measure (\<lambda>(k, xs). length xs)") auto

declare chunks_of.simps [simp del]

definition fetch_client :: "nat \<Rightarrow> string \<Rightarrow> fetcher" where
  "fetch_client k src start end_byte = chunks_of k (byte_range src start end_byte)"

text \<open>
  Modelled from the spec: the contract of the ranged-fetch operation, for any fetch
  client. The chunks written for a request, put together, are the bytes of the requested
  range of the source.
\<close>

definition delivers :: "fetcher \<Rightarrow> string \<Rightarrow> bool" where
  "delivers fetch src =
     (\<forall>start end_byte.
        0 \<le> start \<longrightarrow> concat (fetch start end_byte) = byte_range src start end_byte)"

text \<open>A client that hands an empty string to the sink before the data.\<close>

definition empty_first_client :: fetcher where
  "empty_first_client start end_byte = [[], ''ab'']"

section \<open>Quantities of the invariants\<close>

text \<open>The number of bytes in a list of chunks.\<close>

definition byte_count :: "chunk list \<Rightarrow> int" where
  "byte_count cs = (\<Sum>c\<leftarrow>cs. int (length c))"

text \<open>The counter agrees with the queue.\<close>

definition consistent :: "bridge \<Rightarrow> bool" where
  "consistent b = (bytes_buffered b = byte_count (buffer b))"

text \<open>No chunk that the fetch client writes is longer than \<open>L\<close> bytes.\<close>

definition chunk_bound :: "fetcher \<Rightarrow> int \<Rightarrow> bool" where
  "chunk_bound fetch L =
     (\<forall>start end_byte. \<forall>c\<in>set (fetch start end_byte). int (length c) \<le> L)"

text \<open>The chunks that the current request has still to write.\<close>

fun pending :: "thread \<Rightarrow> chunk list" where
  "pending (InGet kind start_byte cs passed) = cs"
| "pending (AtLoop start_byte) = []"
| "pending Exited = []"

text \<open>The bytes of a call of \<^verbatim>\<open>write\<close> that has left its waiting loop and not yet appended.\<close>

fun in_flight :: "thread \<Rightarrow> int" where
  "in_flight (InGet kind start_byte (d # ds) True) = int (length d)"
| "in_flight t = 0"

text \<open>The bytes that a seek to the last position would put back into the queue.\<close>

definition rewindable :: "bridge \<Rightarrow> int" where
  "rewindable b =
     (if position b = last_position b then 0
      else case last_data b of None \<Rightarrow> 0 | Some d \<Rightarrow> int (length d))"

definition buffered_inv :: "int \<Rightarrow> bridge \<Rightarrow> bool" where
  "buffered_inv L b =
     (0 < max_buffer_size b
      \<and> (\<forall>c\<in>set (buffer b). int (length c) \<le> L)
      \<and> (\<forall>c\<in>set (pending (download_thread b)). int (length c) \<le> L)
      \<and> (\<forall>c. last_data b = Some c \<longrightarrow> int (length c) \<le> L)
      \<and> bytes_buffered b + rewindable b + in_flight (download_thread b)
         \<le> max_buffer_size b - 1 + 2 * L)"

text \<open>
  The offset in the source up to which the download thread will have written when its
  current request is done: the bytes of the source before it are those read, those in
  the queue and those still to come.
\<close>

fun write_end :: "int \<Rightarrow> thread \<Rightarrow> int" where
  "write_end n (AtLoop start_byte) = start_byte"
| "write_end n (InGet Ranged start_byte cs passed) =
     start_byte + DAISY_CHAIN_CHUNK_SIZE - byte_count cs"
| "write_end n (InGet OpenEnded start_byte cs passed) = n - byte_count cs"
| "write_end n Exited = n"

fun thread_ok :: "int \<Rightarrow> thread \<Rightarrow> bool" where
  "thread_ok n (AtLoop start_byte) = (0 \<le> start_byte \<and> start_byte \<le> n)"
| "thread_ok n (InGet Ranged start_byte cs passed) =
     (0 \<le> start_byte \<and> start_byte + DAISY_CHAIN_CHUNK_SIZE < n)"
| "thread_ok n (InGet OpenEnded start_byte cs passed) = True"
| "thread_ok n Exited = True"

fun pushback :: "chunk option \<Rightarrow> int" where
  "pushback None = 0"
| "pushback (Some d) = int (length d)"

fun restart_offset :: "caller \<Rightarrow> int option" where
  "restart_offset Idle = None"
| "restart_offset (AtSignal offset) = Some offset"
| "restart_offset (AtAliveTest offset) = Some offset"
| "restart_offset (AtDrain offset) = Some offset"

definition position_inv :: "int \<Rightarrow> system \<Rightarrow> bool" where
  "position_inv n s =
     (src_obj_size (bridge s) = n
      \<and> 0 \<le> position (bridge s) \<and> position (bridge s) \<le> n
      \<and> 0 \<le> last_position (bridge s)
      \<and> thread_ok n (download_thread (bridge s))
      \<and> (position (bridge s) \<noteq> n \<longrightarrow>
            position (bridge s) + byte_count (buffer (bridge s))
              \<le> write_end n (download_thread (bridge s)))
      \<and> (last_position (bridge s) \<noteq> position (bridge s) \<longrightarrow>
            last_position (bridge s) + pushback (last_data (bridge s))
              + byte_count (buffer (bridge s))
              \<le> write_end n (download_thread (bridge s)))
      \<and> (\<forall>offset. restart_offset (caller s) = Some offset \<longrightarrow> 0 \<le> offset \<and> offset \<le> n))"

text \<open>A seek from the start stays within the source.\<close>

fun seek_within :: "int \<Rightarrow> event \<Rightarrow> bool" where
  "seek_within n (CallSeek offset whence) =
     (whence = SEEK_SET \<longrightarrow> 0 \<le> offset \<and> offset \<le> n)"
| "seek_within n e = True"

text \<open>
  The first chunk that the next read can pop begins the bytes of the source at
  \<open>offset\<close>: it is at the head of the queue, or the queue is empty and the download
  thread is at \<open>offset\<close> and has written nothing of its request yet.
\<close>

fun serving :: "string \<Rightarrow> int \<Rightarrow> thread \<Rightarrow> bool" where
  "serving src offset (AtLoop start_byte) = (start_byte = offset)"
| "serving src offset (InGet kind start_byte cs passed) =
     (start_byte = offset \<and> prefix (concat cs) (drop (nat offset) src)
      \<and> (kind = Ranged \<longrightarrow> concat cs \<noteq> []))"
| "serving src offset Exited = True"

definition serves_from :: "string \<Rightarrow> int \<Rightarrow> bridge \<Rightarrow> bool" where
  "serves_from src offset b =
     (case buffer b of
        c # cs \<Rightarrow> prefix c (drop (nat offset) src)
      | [] \<Rightarrow> serving src offset (download_thread b))"

text \<open>The consumer is inside the restart block of \<^verbatim>\<open>seek offset\<close>.\<close>

definition restarting :: "int \<Rightarrow> system \<Rightarrow> bool" where
  "restarting offset s =
     (consistent (bridge s)
      \<and> (caller s = AtSignal offset \<or> caller s = AtAliveTest offset
         \<or> caller s = AtDrain offset))"

text \<open>
  The states and sizes in which \<^verbatim>\<open>read\<close> gets to the block that pops: it has neither
  returned the empty string at the start, nor raised for the size, and the queue is not
  empty.
\<close>

definition pops :: "int \<Rightarrow> int option \<Rightarrow> bridge \<Rightarrow> bool" where
  "pops tbs amt b =
     (position b \<noteq> src_obj_size b \<and> buffer b \<noteq> []
      \<and> (case amt of None \<Rightarrow> False | Some a \<Rightarrow> a \<noteq> 0 \<and> a \<le> tbs))"

text \<open>No event of the list is a call of \<^verbatim>\<open>read\<close>.\<close>

fun no_read :: "event \<Rightarrow> bool" where
  "no_read (CallRead amt) = False"
| "no_read e = True"

section \<open>Seeking from the end\<close>

text \<open>
  C8. \<^verbatim>\<open>seek(0, os.SEEK_END)\<close> records the position as the last position, clears the
  last chunk and moves the position to the size of the source, so that \<^verbatim>\<open>tell\<close>
  answers that size and any \<^verbatim>\<open>read\<close> returns the empty string at once; the queue, the
  counter, the download thread and the stop event stay as they were. With a non-zero
  offset the call raises \<^verbatim>\<open>BadRequestException\<close>.
\<close>

theorem seek_end_effect:
  "(\<exists>b'. seek 0 SEEK_END b = Returns False b'
        \<and> last_position b' = position b
        \<and> last_data b' = None
        \<and> position b' = src_obj_size b
        \<and> tell b' = src_obj_size b
        \<and> (\<forall>tbs amt. read tbs amt b' = Returns [] b')
        \<and> buffer b' = buffer b
        \<and> bytes_buffered b' = bytes_buffered b
        \<and> download_thread b' = download_thread b
        \<and> stop_download b' = stop_download b
        \<and> src_obj_size b' = src_obj_size b
        \<and> max_buffer_size b' = max_buffer_size b)
   \<and> (\<forall>offset. offset \<noteq> 0 \<longrightarrow> seek offset SEEK_END b = Raises BadRequestException b)"
  by (simp add: seek_def read_def tell_def)

theorem seek_end_effect_witness:
  "(5::int) \<noteq> 0 \<and> seek 5 SEEK_END (init 250) = Raises BadRequestException (init 250)"
  using seek_end_effect [of "init 250"] by simp

section \<open>Errors raised by seek\<close>

text \<open>
  C10. A call of \<^verbatim>\<open>seek\<close> that raises for its arguments, a non-zero offset with
  \<^verbatim>\<open>os.SEEK_END\<close> (\<^verbatim>\<open>BadRequestException\<close>) or a mode other than \<^verbatim>\<open>os.SEEK_SET\<close> and
  \<^verbatim>\<open>os.SEEK_END\<close> (\<^verbatim>\<open>IOError\<close>), leaves the whole state as it was: the state after the
  call is the state before it, and the consumer is outside any call again.
\<close>

theorem seek_invalid_arguments_keep_state:
  "(offset \<noteq> 0 \<longrightarrow> seek offset SEEK_END b = Raises BadRequestException b)
   \<and> (whence \<noteq> SEEK_SET \<and> whence \<noteq> SEEK_END \<longrightarrow> seek offset whence b = Raises IOError b)
   \<and> (caller s = Idle
        \<and> (whence = SEEK_END \<and> offset \<noteq> 0 \<or> whence \<noteq> SEEK_SET \<and> whence \<noteq> SEEK_END)
        \<longrightarrow> step fetch tbs (CallSeek offset whence) s = Some s)"
  by (auto simp: seek_def)

theorem seek_invalid_arguments_keep_state_witness:
  "seek 7 SEEK_END (init 250) = Raises BadRequestException (init 250)
   \<and> seek 7 1 (init 250) = Raises IOError (init 250)
   \<and> step (fetch_client 100 ''abc'') 8192 (CallSeek 7 1) (new_system 250)
       = Some (new_system 250)"
  using seek_invalid_arguments_keep_state
    [of 7 "init 250" 1 "new_system 250" "fetch_client 100 ''abc''" 8192]
  by (simp add: SEEK_SET_def SEEK_END_def new_system_def)

section \<open>Errors raised by read\<close>

text \<open>
  C9. When \<^verbatim>\<open>read(amt)\<close> pops a chunk longer than \<^verbatim>\<open>amt\<close>, it raises
  \<^verbatim>\<open>BadRequestException\<close> after the state has changed: the chunk is gone from the queue,
  the position has advanced by its length, the counter has gone down by it, and the last
  position and the last chunk are those of this read.
\<close>

theorem read_oversized_chunk_mutates:
  assumes "buffer b = data # rest" and "position b \<noteq> src_obj_size b"
    and "a \<noteq> 0" and "a \<le> tbs" and "int (length data) > a"
  shows "\<exists>b'. read tbs (Some a) b = Raises BadRequestException b'
           \<and> buffer b' = rest
           \<and> position b' = position b + int (length data)
           \<and> bytes_buffered b' = bytes_buffered b - int (length data)
           \<and> last_position b' = position b
           \<and> last_data b' = Some data
           \<and> b' \<noteq> b"
proof -
  let ?b' = "b\<lparr>buffer := rest, last_position := position b, last_data := Some data,
                position := position b + int (length data),
                bytes_buffered := bytes_buffered b - int (length data)\<rparr>"
  have "read tbs (Some a) b = Raises BadRequestException ?b'"
    using assms by (simp add: read_def Let_def)
  moreover have "?b' \<noteq> b"
  proof
    assume "?b' = b"
    then have "buffer ?b' = buffer b" by simp
    with assms(1) show False by simp
  qed
  ultimately show ?thesis by auto
qed

theorem read_oversized_chunk_mutates_witness:
  "\<exists>b'. read 8192 (Some 3) ((init 250)\<lparr>buffer := [''abcde''], bytes_buffered := 5\<rparr>)
           = Raises BadRequestException b'
      \<and> buffer b' = [] \<and> position b' = 5 \<and> bytes_buffered b' = 0
      \<and> last_position b' = 0 \<and> last_data b' = Some ''abcde''"
  using read_oversized_chunk_mutates
    [of "(init 250)\<lparr>buffer := [''abcde''], bytes_buffered := 5\<rparr>" "''abcde''" "[]" 3 8192]
  by (auto simp: init_def StartDownloadThread_def)

text \<open>
  C3, as the code has it. While the position is not the size of the source,
  \<^verbatim>\<open>read\<close> raises \<^verbatim>\<open>BadRequestException\<close>, with the state unchanged, for an absent
  \<^verbatim>\<open>amt\<close> and for an \<^verbatim>\<open>amt\<close> above the transfer buffer size. A negative \<^verbatim>\<open>amt\<close> is not
  refused at the start: the call waits for a chunk and raises once it has popped one.
  \<^verbatim>\<open>read(0)\<close> returns the empty string in every state, and at the end of the source
  every \<^verbatim>\<open>read\<close> does, whatever \<^verbatim>\<open>amt\<close> is.
\<close>

theorem read_size_check:
  "(position b \<noteq> src_obj_size b \<longrightarrow>
       read tbs None b = Raises BadRequestException b
     \<and> (\<forall>a. tbs < a \<and> a \<noteq> 0 \<longrightarrow> read tbs (Some a) b = Raises BadRequestException b)
     \<and> (\<forall>a. a < 0 \<and> a \<le> tbs \<longrightarrow>
            (buffer b = [] \<longrightarrow> read tbs (Some a) b = Blocks)
          \<and> (buffer b \<noteq> [] \<longrightarrow>
               (\<exists>b'. read tbs (Some a) b = Raises BadRequestException b'
                    \<and> buffer b' = tl (buffer b)))))
   \<and> read tbs (Some 0) b = Returns [] b
   \<and> (position b = src_obj_size b \<longrightarrow> read tbs amt b = Returns [] b)"
  by (auto simp: read_def Let_def split: list.splits)

theorem read_size_check_witness:
  "position (init 250) \<noteq> src_obj_size (init 250)
   \<and> read 8192 None (init 250) = Raises BadRequestException (init 250)
   \<and> read 8192 (Some 8193) (init 250) = Raises BadRequestException (init 250)
   \<and> read 8192 (Some (- 1)) (init 250) = Blocks
   \<and> position (init 0) = src_obj_size (init 0)
   \<and> read 8192 None (init 0) = Returns [] (init 0)"
  using read_size_check [of "init 250" 8192 None] read_size_check [of "init 0" 8192 None]
  by (simp add: init_def StartDownloadThread_def)

theorem read_size_check_counterexample:
  "read 8192 (Some 0) (init 250) = Returns [] (init 250)
   \<and> read 8192 None (init 0) = Returns [] (init 0)
   \<and> read 8192 (Some (- 1)) (init 250) = Blocks"
  by (simp add: read_def init_def StartDownloadThread_def)

section \<open>What the download thread leaves alone\<close>

lemma thread_step_keeps:
  "position (thread_step fetch t b) = position b
   \<and> src_obj_size (thread_step fetch t b) = src_obj_size b
   \<and> max_buffer_size (thread_step fetch t b) = max_buffer_size b
   \<and> last_position (thread_step fetch t b) = last_position b
   \<and> last_data (thread_step fetch t b) = last_data b
   \<and> (\<exists>ys. buffer (thread_step fetch t b) = buffer b @ ys)"
  by (induction fetch t b rule: thread_step.induct) (simp_all add: write_append_def)

lemma download_step_keeps:
  "position (download_step fetch b) = position b
   \<and> src_obj_size (download_step fetch b) = src_obj_size b
   \<and> max_buffer_size (download_step fetch b) = max_buffer_size b
   \<and> last_position (download_step fetch b) = last_position b
   \<and> last_data (download_step fetch b) = last_data b
   \<and> (\<exists>ys. buffer (download_step fetch b) = buffer b @ ys)"
  using thread_step_keeps [of fetch "download_thread b" b] by (simp add: download_step_def)

lemma download_steps_keep:
  "position ((download_step fetch ^^ n) b) = position b
   \<and> src_obj_size ((download_step fetch ^^ n) b) = src_obj_size b
   \<and> last_position ((download_step fetch ^^ n) b) = last_position b
   \<and> last_data ((download_step fetch ^^ n) b) = last_data b
   \<and> (\<exists>ys. buffer ((download_step fetch ^^ n) b) = buffer b @ ys)"
proof (induction n)
  case 0
  show ?case by simp
next
  case (Suc n)
  let ?b = "(download_step fetch ^^ n) b"
  from download_step_keeps [of fetch ?b] Suc
  show ?case by auto
qed

section \<open>The one-step rewind\<close>

lemma rewind_after_read:
  assumes b1': "position b1' = p + int (length c)" "last_position b1' = p"
      "last_data b1' = Some c" "src_obj_size b1' = size_of_source"
    and pos: "p \<noteq> size_of_source" and c: "c \<noteq> []"
  shows "seek p SEEK_SET b1'
           = Returns False
               (b1'\<lparr>position := p, buffer := c # buffer b1',
                    bytes_buffered := bytes_buffered b1' + int (length c)\<rparr>)"
    and "a' \<le> tbs \<Longrightarrow> int (length c) \<le> a' \<Longrightarrow>
         read tbs (Some a')
           (b1'\<lparr>position := p, buffer := c # buffer b1',
                bytes_buffered := bytes_buffered b1' + int (length c)\<rparr>)
         = Returns c b1'"
proof -
  have len: "0 < int (length c)" using c by simp
  show "seek p SEEK_SET b1'
           = Returns False
               (b1'\<lparr>position := p, buffer := c # buffer b1',
                    bytes_buffered := bytes_buffered b1' + int (length c)\<rparr>)"
    using b1' len c by (simp add: seek_def SEEK_SET_def SEEK_END_def)
  show "read tbs (Some a')
           (b1'\<lparr>position := p, buffer := c # buffer b1',
                bytes_buffered := bytes_buffered b1' + int (length c)\<rparr>)
         = Returns c b1'"
    if a': "a' \<le> tbs" "int (length c) \<le> a'"
  proof -
    have a'0: "a' \<noteq> 0" using len a'(2) by linarith
    have same: "b1'\<lparr>position := p, buffer := c # buffer b1',
                bytes_buffered := bytes_buffered b1' + int (length c)\<rparr>
              \<lparr>buffer := buffer b1', last_position := p, last_data := Some c,
                position := p + int (length c),
                bytes_buffered := bytes_buffered b1' + int (length c) - int (length c)\<rparr>
            = b1'"
      using b1' by (intro bridge.equality) simp_all
    show ?thesis
      using b1' pos a'0 a' same by (simp add: read_def Let_def)
  qed
qed

text \<open>
  C2, as the code has it. After a \<^verbatim>\<open>read\<close> that returned a non-empty chunk \<open>c\<close> from
  position \<open>p\<close>, and whatever the download thread has done since, \<^verbatim>\<open>seek(p)\<close> sets the
  position to \<open>p\<close>, puts \<open>c\<close> back at the front of the queue and adds its length to
  the counter; the next \<^verbatim>\<open>read\<close> whose \<^verbatim>\<open>amt\<close> admits \<open>c\<close> returns \<open>c\<close> again and
  leaves the state that the seek found, also when the download thread has run in
  between. After a \<^verbatim>\<open>read\<close> that returned the empty string, the position is still
  \<open>p\<close>: \<^verbatim>\<open>seek(p)\<close> changes nothing and puts nothing back.
\<close>

theorem seek_rewind_replays:
  assumes "read tbs amt b = Returns c b1"
  shows "(c \<noteq> [] \<longrightarrow>
           (\<forall>fetch m. \<exists>b2.
              seek (position b) SEEK_SET ((download_step fetch ^^ m) b1) = Returns False b2
              \<and> position b2 = position b
              \<and> buffer b2 = c # buffer ((download_step fetch ^^ m) b1)
              \<and> bytes_buffered b2
                  = bytes_buffered ((download_step fetch ^^ m) b1) + int (length c)
              \<and> (\<forall>a'. a' \<le> tbs \<and> int (length c) \<le> a' \<longrightarrow>
                    read tbs (Some a') b2 = Returns c ((download_step fetch ^^ m) b1)
                  \<and> (\<forall>n. \<exists>b3.
                        read tbs (Some a') ((download_step fetch ^^ n) b2) = Returns c b3))))
       \<and> (c = [] \<longrightarrow>
           (\<forall>fetch m.
              seek (position b) SEEK_SET ((download_step fetch ^^ m) b1)
                = Returns False ((download_step fetch ^^ m) b1)))"
proof (intro conjI impI allI)
  fix fetch m
  assume c: "c \<noteq> []"
  let ?b1' = "(download_step fetch ^^ m) b1"
  let ?b2 = "?b1'\<lparr>position := position b, buffer := c # buffer ?b1',
                   bytes_buffered := bytes_buffered ?b1' + int (length c)\<rparr>"
  from assms c obtain rest where buf: "buffer b = c # rest"
    and pos: "position b \<noteq> src_obj_size b"
    and b1: "b1 = b\<lparr>buffer := rest, last_position := position b, last_data := Some c,
                    position := position b + int (length c),
                    bytes_buffered := bytes_buffered b - int (length c)\<rparr>"
    by (auto simp: read_def Let_def split: if_splits option.splits list.splits)
  from download_steps_keep [where fetch = fetch and n = m and b = b1] b1
  have keep: "position ?b1' = position b + int (length c)" "last_position ?b1' = position b"
    "last_data ?b1' = Some c" "src_obj_size ?b1' = src_obj_size b"
    by simp_all
  note rw = rewind_after_read [OF keep pos c]
  have later: "\<exists>b3. read tbs (Some a') ((download_step fetch ^^ n) ?b2) = Returns c b3"
    if a': "a' \<le> tbs" "int (length c) \<le> a'" for a' n
  proof -
    have a'0: "a' \<noteq> 0" using c a'(2) by (cases c) auto
    from download_steps_keep [where fetch = fetch and n = n and b = ?b2]
    obtain ys where "position ((download_step fetch ^^ n) ?b2) = position b"
      and "src_obj_size ((download_step fetch ^^ n) ?b2) = src_obj_size b"
      and "buffer ((download_step fetch ^^ n) ?b2) = (c # buffer ?b1') @ ys"
      using keep by auto
    then show ?thesis
      using pos a'0 a' by (simp add: read_def Let_def)
  qed
  show "\<exists>b2. seek (position b) SEEK_SET ?b1' = Returns False b2
           \<and> position b2 = position b
           \<and> buffer b2 = c # buffer ?b1'
           \<and> bytes_buffered b2 = bytes_buffered ?b1' + int (length c)
           \<and> (\<forall>a'. a' \<le> tbs \<and> int (length c) \<le> a' \<longrightarrow>
                 read tbs (Some a') b2 = Returns c ?b1'
               \<and> (\<forall>n. \<exists>b3.
                     read tbs (Some a') ((download_step fetch ^^ n) b2) = Returns c b3))"
    using rw later by (intro exI [of _ ?b2]) simp
next
  fix fetch m
  assume c: "c = []"
  let ?b1' = "(download_step fetch ^^ m) b1"
  from assms c have "position b1 = position b"
    by (auto simp: read_def Let_def split: if_splits option.splits list.splits)
  with download_steps_keep [where fetch = fetch and n = m and b = b1]
  have "position ?b1' = position b" by simp
  then show "seek (position b) SEEK_SET ?b1' = Returns False ?b1'"
    by (simp add: seek_def SEEK_SET_def SEEK_END_def)
qed

theorem seek_rewind_replays_witness:
  "read 8192 (Some 100)
     \<lparr>position = 0, buffer = [''abc''], bytes_buffered = 3, max_buffer_size = 1048576,
      last_position = 0, last_data = None, src_obj_size = 5,
      download_thread = InGet OpenEnded 0 [''de''] False, stop_download = False\<rparr>
   = Returns ''abc''
     \<lparr>position = 3, buffer = [], bytes_buffered = 0, max_buffer_size = 1048576,
      last_position = 0, last_data = Some ''abc'', src_obj_size = 5,
      download_thread = InGet OpenEnded 0 [''de''] False, stop_download = False\<rparr>
   \<and> seek 0 SEEK_SET
       \<lparr>position = 3, buffer = [''de''], bytes_buffered = 2, max_buffer_size = 1048576,
        last_position = 0, last_data = Some ''abc'', src_obj_size = 5,
        download_thread = InGet OpenEnded 0 [] False, stop_download = False\<rparr>
     = Returns False
       \<lparr>position = 0, buffer = [''abc'', ''de''], bytes_buffered = 5,
        max_buffer_size = 1048576, last_position = 0, last_data = Some ''abc'',
        src_obj_size = 5, download_thread = InGet OpenEnded 0 [] False,
        stop_download = False\<rparr>
   \<and> read 8192 (Some 100)
       \<lparr>position = 0, buffer = [''abc'', ''de''], bytes_buffered = 5,
        max_buffer_size = 1048576, last_position = 0, last_data = Some ''abc'',
        src_obj_size = 5, download_thread = InGet OpenEnded 0 [] False,
        stop_download = False\<rparr>
     = Returns ''abc''
       \<lparr>position = 3, buffer = [''de''], bytes_buffered = 2, max_buffer_size = 1048576,
        last_position = 0, last_data = Some ''abc'', src_obj_size = 5,
        download_thread = InGet OpenEnded 0 [] False, stop_download = False\<rparr>"
proof -
  let ?f = "fetch_client 3 ''abcde''"
  let ?b = "\<lparr>position = 0, buffer = [''abc''], bytes_buffered = 3, max_buffer_size = 1048576,
      last_position = 0, last_data = None, src_obj_size = 5,
      download_thread = InGet OpenEnded 0 [''de''] False, stop_download = False\<rparr>"
  let ?b1 = "\<lparr>position = 3, buffer = [], bytes_buffered = 0, max_buffer_size = 1048576,
      last_position = 0, last_data = Some ''abc'', src_obj_size = 5,
      download_thread = InGet OpenEnded 0 [''de''] False, stop_download = False\<rparr>"
  let ?b1' = "\<lparr>position = 3, buffer = [''de''], bytes_buffered = 2,
      max_buffer_size = 1048576, last_position = 0, last_data = Some ''abc'',
      src_obj_size = 5, download_thread = InGet OpenEnded 0 [] False,
      stop_download = False\<rparr>"
  have rd: "read 8192 (Some 100) ?b = Returns ''abc'' ?b1"
    by (simp add: read_def Let_def)
  have steps: "(download_step ?f ^^ 2) ?b1 = ?b1'"
    by (simp add: numeral_2_eq_2 download_step_def write_may_proceed_def write_append_def)
  from seek_rewind_replays [OF rd]
  obtain b2 where sk: "seek (position ?b) SEEK_SET ((download_step ?f ^^ 2) ?b1) = Returns False b2"
    and fields: "position b2 = position ?b"
      "buffer b2 = ''abc'' # buffer ((download_step ?f ^^ 2) ?b1)"
      "bytes_buffered b2 = bytes_buffered ((download_step ?f ^^ 2) ?b1) + int (length ''abc'')"
    and again: "\<forall>a'. a' \<le> 8192 \<and> int (length ''abc'') \<le> a' \<longrightarrow>
              read 8192 (Some a') b2 = Returns ''abc'' ((download_step ?f ^^ 2) ?b1)"
    by (metis list.distinct(1))
  from sk have b2: "b2 = \<lparr>position = 0, buffer = [''abc'', ''de''], bytes_buffered = 5,
        max_buffer_size = 1048576, last_position = 0, last_data = Some ''abc'',
        src_obj_size = 5, download_thread = InGet OpenEnded 0 [] False,
        stop_download = False\<rparr>"
    by (simp add: steps seek_def SEEK_SET_def SEEK_END_def)
  from again have "read 8192 (Some 100) b2 = Returns ''abc'' ?b1'"
    by (simp add: steps)
  with rd sk b2 steps show ?thesis by simp
qed

theorem seek_rewind_replays_counterexample:
  "run empty_first_client 8192
     [DownloadThread, DownloadThread, DownloadThread, DownloadThread, DownloadThread]
     (new_system 250)
   = Some \<lparr>bridge =
       \<lparr>position = 0, buffer = [[], ''ab''], bytes_buffered = 2, max_buffer_size = 1048576,
        last_position = 0, last_data = None, src_obj_size = 250,
        download_thread = InGet OpenEnded 0 [] False, stop_download = False\<rparr>,
      caller = Idle\<rparr>
   \<and> read 8192 (Some 100)
       \<lparr>position = 0, buffer = [[], ''ab''], bytes_buffered = 2, max_buffer_size = 1048576,
        last_position = 0, last_data = None, src_obj_size = 250,
        download_thread = InGet OpenEnded 0 [] False, stop_download = False\<rparr>
     = Returns []
       \<lparr>position = 0, buffer = [''ab''], bytes_buffered = 2, max_buffer_size = 1048576,
        last_position = 0, last_data = Some [], src_obj_size = 250,
        download_thread = InGet OpenEnded 0 [] False, stop_download = False\<rparr>
   \<and> seek 0 SEEK_SET
       \<lparr>position = 0, buffer = [''ab''], bytes_buffered = 2, max_buffer_size = 1048576,
        last_position = 0, last_data = Some [], src_obj_size = 250,
        download_thread = InGet OpenEnded 0 [] False, stop_download = False\<rparr>
     = Returns False
       \<lparr>position = 0, buffer = [''ab''], bytes_buffered = 2, max_buffer_size = 1048576,
        last_position = 0, last_data = Some [], src_obj_size = 250,
        download_thread = InGet OpenEnded 0 [] False, stop_download = False\<rparr>
   \<and> read 8192 (Some 100)
       \<lparr>position = 0, buffer = [''ab''], bytes_buffered = 2, max_buffer_size = 1048576,
        last_position = 0, last_data = Some [], src_obj_size = 250,
        download_thread = InGet OpenEnded 0 [] False, stop_download = False\<rparr>
     = Returns ''ab''
       \<lparr>position = 2, buffer = [], bytes_buffered = 0, max_buffer_size = 1048576,
        last_position = 0, last_data = Some ''ab'', src_obj_size = 250,
        download_thread = InGet OpenEnded 0 [] False, stop_download = False\<rparr>"
  by (simp add: new_system_def init_def StartDownloadThread_def download_step_def
        DAISY_CHAIN_CHUNK_SIZE_def empty_first_client_def write_may_proceed_def
        write_append_def read_def seek_def SEEK_SET_def SEEK_END_def Let_def)

section \<open>The last chunk\<close>

lemma rewindable_ge_0: "0 \<le> rewindable b"
  by (simp add: rewindable_def split: option.splits)

lemma step_last_data_thread:
  assumes "step fetch tbs e s = Some s'" and "e = DownloadThread \<or> e = CallTell"
  shows "last_data (bridge s') = last_data (bridge s)
       \<and> rewindable (bridge s') = rewindable (bridge s)"
  using assms download_step_keeps [of fetch "bridge s"]
  by (auto simp: rewindable_def split: if_splits)

lemma step_last_data_read:
  assumes "step fetch tbs (CallRead amt) s = Some s'"
  shows "(pops tbs amt (bridge s) \<longrightarrow>
            (\<exists>c rest. buffer (bridge s) = c # rest \<and> buffer (bridge s') = rest
                \<and> last_data (bridge s') = Some c
                \<and> last_position (bridge s') = position (bridge s)
                \<and> position (bridge s') = position (bridge s) + int (length c)))
       \<and> (\<not> pops tbs amt (bridge s) \<longrightarrow> bridge s' = bridge s)"
  using assms
  by (auto simp: pops_def read_def Let_def
           split: if_splits option.splits list.splits outcome.splits)

lemma step_last_data_seek:
  assumes "step fetch tbs (CallSeek offset whence) s = Some s'"
  shows "(if whence = SEEK_END \<and> offset = 0 then last_data (bridge s') = None
          else last_data (bridge s') = last_data (bridge s))
       \<and> (whence = SEEK_SET \<and> offset = last_position (bridge s)
            \<and> offset \<noteq> position (bridge s) \<longrightarrow>
              position (bridge s') = last_position (bridge s')
              \<and> rewindable (bridge s') = 0
              \<and> last_position (bridge s') = last_position (bridge s)
              \<and> caller s' = Idle)
       \<and> (rewindable (bridge s) = 0 \<longrightarrow>
              buffer (bridge s') = buffer (bridge s)
              \<and> bytes_buffered (bridge s') = bytes_buffered (bridge s))
       \<and> (buffer (bridge s') \<noteq> buffer (bridge s) \<longrightarrow>
              (\<exists>c. last_data (bridge s) = Some c \<and> buffer (bridge s') = c # buffer (bridge s)))
       \<and> rewindable (bridge s') \<le> rewindable (bridge s)"
proof -
  from assms have idle: "caller s = Idle" by (auto split: if_splits)
  show ?thesis
  proof (cases "seek offset whence (bridge s)")
    case (Returns r b')
    with assms idle have s': "bridge s' = b'" "caller s' = (if r then AtSignal offset else Idle)"
      by auto
    from Returns rewindable_ge_0 [of "bridge s"] show ?thesis
      unfolding s'
      by (auto simp: seek_def rewindable_def SEEK_SET_def SEEK_END_def
               split: if_splits option.splits)
  next
    case (Raises err b')
    then have "b' = bridge s" "\<not> (whence = SEEK_END \<and> offset = 0)" "whence \<noteq> SEEK_SET"
      by (auto simp: seek_def SEEK_SET_def SEEK_END_def split: if_splits option.splits)
    with assms idle Raises show ?thesis by auto
  next
    case Blocks
    with assms idle show ?thesis by auto
  qed
qed

lemma step_last_data_seek_step:
  assumes "step fetch tbs SeekStep s = Some s'"
  shows "(if (\<exists>offset. caller s = AtAliveTest offset) \<and> download_thread (bridge s) = Exited
          then last_data (bridge s') = None \<and> caller s' = Idle
          else last_data (bridge s') = last_data (bridge s))
       \<and> rewindable (bridge s') \<le> rewindable (bridge s)"
proof (cases "caller s")
  case Idle
  with assms show ?thesis by simp
next
  case (AtSignal offset)
  with assms show ?thesis by (auto simp: rewindable_def)
next
  case (AtAliveTest offset)
  with assms rewindable_ge_0 [of "bridge s"] show ?thesis
    by (auto simp: seek_finish_def StartDownloadThread_def rewindable_def split: if_splits)
next
  case (AtDrain offset)
  with assms show ?thesis
    by (auto simp: rewindable_def split: prod.splits)
qed

lemma run_no_pushback:
  "rewindable (bridge s) = 0 \<Longrightarrow> \<forall>e\<in>set es. no_read e \<Longrightarrow>
   run fetch tbs es s = Some s' \<Longrightarrow> rewindable (bridge s') = 0"
proof (induction es arbitrary: s)
  case Nil
  then show ?case by simp
next
  case (Cons e es)
  from Cons.prems(3) obtain s1 where s1: "step fetch tbs e s = Some s1"
    and rest: "run fetch tbs es s1 = Some s'"
    by (auto split: option.splits)
  from Cons.prems(2) have e: "no_read e" and es: "\<forall>e\<in>set es. no_read e" by simp_all
  have "rewindable (bridge s1) \<le> rewindable (bridge s)"
  proof (cases e)
    case DownloadThread
    with s1 step_last_data_thread [of fetch tbs e s s1] show ?thesis by simp
  next
    case (CallRead amt)
    with e show ?thesis by simp
  next
    case CallTell
    with s1 step_last_data_thread [of fetch tbs e s s1] show ?thesis by simp
  next
    case (CallSeek offset whence)
    with s1 step_last_data_seek [of fetch tbs offset whence s s1] show ?thesis by simp
  next
    case SeekStep
    with s1 step_last_data_seek_step [of fetch tbs s s1] show ?thesis by simp
  qed
  with Cons.prems(1) rewindable_ge_0 [of "bridge s1"]
  have "rewindable (bridge s1) = 0" by simp
  from Cons.IH [OF this es rest] show ?case .
qed

text \<open>
  C7, as the code has it. The last chunk changes in two ways only: a \<^verbatim>\<open>read\<close> that pops
  a chunk sets it to that chunk, whether it then returns or raises, and
  \<^verbatim>\<open>seek(0, os.SEEK_END)\<close> and the end of a restart set it to \<^verbatim>\<open>None\<close>. Every other
  step leaves it as it is: the download thread, \<^verbatim>\<open>tell\<close>, a \<^verbatim>\<open>read\<close> that does not
  pop, every other \<^verbatim>\<open>seek\<close>, the rewind included, and the steps of the restart block
  before its end. A rewind leaves the position equal to the last position, and from a
  state in which a seek has nothing to put back (the position is the last position, or
  the last chunk is \<^verbatim>\<open>None\<close> or empty), no seek puts anything back into the queue
  until the next \<^verbatim>\<open>read\<close>.
\<close>

theorem last_data_changes:
  "(step fetch tbs e s = Some s' \<longrightarrow>
      (e = DownloadThread \<or> e = CallTell \<longrightarrow> last_data (bridge s') = last_data (bridge s))
    \<and> (\<forall>amt. e = CallRead amt \<longrightarrow>
          (pops tbs amt (bridge s) \<longrightarrow>
             (\<exists>c rest. buffer (bridge s) = c # rest \<and> buffer (bridge s') = rest
                 \<and> last_data (bridge s') = Some c))
        \<and> (\<not> pops tbs amt (bridge s) \<longrightarrow> bridge s' = bridge s))
    \<and> (\<forall>offset whence. e = CallSeek offset whence \<longrightarrow>
          (if whence = SEEK_END \<and> offset = 0 then last_data (bridge s') = None
           else last_data (bridge s') = last_data (bridge s))
        \<and> (whence = SEEK_SET \<and> offset = last_position (bridge s)
             \<and> offset \<noteq> position (bridge s) \<longrightarrow>
               position (bridge s') = last_position (bridge s')
               \<and> rewindable (bridge s') = 0)
        \<and> (rewindable (bridge s) = 0 \<longrightarrow>
               buffer (bridge s') = buffer (bridge s)
               \<and> bytes_buffered (bridge s') = bytes_buffered (bridge s))
        \<and> (buffer (bridge s') \<noteq> buffer (bridge s) \<longrightarrow>
               (\<exists>c. last_data (bridge s) = Some c
                   \<and> buffer (bridge s') = c # buffer (bridge s))
               \<and> rewindable (bridge s') = 0))
    \<and> (e = SeekStep \<longrightarrow>
          (if (\<exists>offset. caller s = AtAliveTest offset) \<and> download_thread (bridge s) = Exited
           then last_data (bridge s') = None \<and> caller s' = Idle
           else last_data (bridge s') = last_data (bridge s))))
   \<and> (rewindable (bridge s0) = 0 \<and> (\<forall>e\<in>set es. no_read e)
        \<and> run fetch tbs es s0 = Some s1
      \<longrightarrow> rewindable (bridge s1) = 0
          \<and> (\<forall>offset whence s2.
                step fetch tbs (CallSeek offset whence) s1 = Some s2 \<longrightarrow>
                  buffer (bridge s2) = buffer (bridge s1)
                  \<and> bytes_buffered (bridge s2) = bytes_buffered (bridge s1)))"
proof -
  have steps:
    "(e = DownloadThread \<or> e = CallTell \<longrightarrow> last_data (bridge s') = last_data (bridge s))
    \<and> (\<forall>amt. e = CallRead amt \<longrightarrow>
          (pops tbs amt (bridge s) \<longrightarrow>
             (\<exists>c rest. buffer (bridge s) = c # rest \<and> buffer (bridge s') = rest
                 \<and> last_data (bridge s') = Some c))
        \<and> (\<not> pops tbs amt (bridge s) \<longrightarrow> bridge s' = bridge s))
    \<and> (\<forall>offset whence. e = CallSeek offset whence \<longrightarrow>
          (if whence = SEEK_END \<and> offset = 0 then last_data (bridge s') = None
           else last_data (bridge s') = last_data (bridge s))
        \<and> (whence = SEEK_SET \<and> offset = last_position (bridge s)
             \<and> offset \<noteq> position (bridge s) \<longrightarrow>
               position (bridge s') = last_position (bridge s')
               \<and> rewindable (bridge s') = 0)
        \<and> (rewindable (bridge s) = 0 \<longrightarrow>
               buffer (bridge s') = buffer (bridge s)
               \<and> bytes_buffered (bridge s') = bytes_buffered (bridge s))
        \<and> (buffer (bridge s') \<noteq> buffer (bridge s) \<longrightarrow>
               (\<exists>c. last_data (bridge s) = Some c
                   \<and> buffer (bridge s') = c # buffer (bridge s))
               \<and> rewindable (bridge s') = 0))
    \<and> (e = SeekStep \<longrightarrow>
          (if (\<exists>offset. caller s = AtAliveTest offset) \<and> download_thread (bridge s) = Exited
           then last_data (bridge s') = None \<and> caller s' = Idle
           else last_data (bridge s') = last_data (bridge s)))"
    if st: "step fetch tbs e s = Some s'"
  proof -
    have a1: "e = DownloadThread \<or> e = CallTell
                \<longrightarrow> last_data (bridge s') = last_data (bridge s)"
      using step_last_data_thread [OF st] by simp
    have a2: "\<forall>amt. e = CallRead amt \<longrightarrow>
          (pops tbs amt (bridge s) \<longrightarrow>
             (\<exists>c rest. buffer (bridge s) = c # rest \<and> buffer (bridge s') = rest
                 \<and> last_data (bridge s') = Some c))
        \<and> (\<not> pops tbs amt (bridge s) \<longrightarrow> bridge s' = bridge s)"
      using st step_last_data_read [of fetch tbs _ s s'] by blast
    have a3: "\<forall>offset whence. e = CallSeek offset whence \<longrightarrow>
          (if whence = SEEK_END \<and> offset = 0 then last_data (bridge s') = None
           else last_data (bridge s') = last_data (bridge s))
        \<and> (whence = SEEK_SET \<and> offset = last_position (bridge s)
             \<and> offset \<noteq> position (bridge s) \<longrightarrow>
               position (bridge s') = last_position (bridge s')
               \<and> rewindable (bridge s') = 0)
        \<and> (rewindable (bridge s) = 0 \<longrightarrow>
               buffer (bridge s') = buffer (bridge s)
               \<and> bytes_buffered (bridge s') = bytes_buffered (bridge s))
        \<and> (buffer (bridge s') \<noteq> buffer (bridge s) \<longrightarrow>
               (\<exists>c. last_data (bridge s) = Some c
                   \<and> buffer (bridge s') = c # buffer (bridge s))
               \<and> rewindable (bridge s') = 0)"
    proof (intro allI impI)
      fix offset whence
      assume e: "e = CallSeek offset whence"
      note sk = step_last_data_seek [OF st [unfolded e]]
      have zero: "rewindable (bridge s') = 0" if "buffer (bridge s') \<noteq> buffer (bridge s)"
      proof -
        from st e have idle: "caller s = Idle" by (auto split: if_splits)
        from that st e idle show ?thesis
          by (auto simp: seek_def rewindable_def SEEK_SET_def SEEK_END_def
                   split: if_splits option.splits outcome.splits)
      qed
      from sk zero show "(if whence = SEEK_END \<and> offset = 0 then last_data (bridge s') = None
           else last_data (bridge s') = last_data (bridge s))
        \<and> (whence = SEEK_SET \<and> offset = last_position (bridge s)
             \<and> offset \<noteq> position (bridge s) \<longrightarrow>
               position (bridge s') = last_position (bridge s')
               \<and> rewindable (bridge s') = 0)
        \<and> (rewindable (bridge s) = 0 \<longrightarrow>
               buffer (bridge s') = buffer (bridge s)
               \<and> bytes_buffered (bridge s') = bytes_buffered (bridge s))
        \<and> (buffer (bridge s') \<noteq> buffer (bridge s) \<longrightarrow>
               (\<exists>c. last_data (bridge s) = Some c
                   \<and> buffer (bridge s') = c # buffer (bridge s))
               \<and> rewindable (bridge s') = 0)"
        by simp
    qed
    have a4: "e = SeekStep \<longrightarrow>
          (if (\<exists>offset. caller s = AtAliveTest offset) \<and> download_thread (bridge s) = Exited
           then last_data (bridge s') = None \<and> caller s' = Idle
           else last_data (bridge s') = last_data (bridge s))"
      using st step_last_data_seek_step [of fetch tbs s s'] by blast
    show ?thesis
      by (rule conjI [OF a1 conjI [OF a2 conjI [OF a3 a4]]])
  qed
  have runs: "rewindable (bridge s0) = 0 \<and> (\<forall>e\<in>set es. no_read e)
        \<and> run fetch tbs es s0 = Some s1
      \<longrightarrow> rewindable (bridge s1) = 0
          \<and> (\<forall>offset whence s2.
                step fetch tbs (CallSeek offset whence) s1 = Some s2 \<longrightarrow>
                  buffer (bridge s2) = buffer (bridge s1)
                  \<and> bytes_buffered (bridge s2) = bytes_buffered (bridge s1))"
  proof (intro impI)
    assume "rewindable (bridge s0) = 0 \<and> (\<forall>e\<in>set es. no_read e)
        \<and> run fetch tbs es s0 = Some s1"
    then have zero: "rewindable (bridge s1) = 0"
      using run_no_pushback [of s0 es fetch tbs s1] by blast
    have "buffer (bridge s2) = buffer (bridge s1)
          \<and> bytes_buffered (bridge s2) = bytes_buffered (bridge s1)"
      if "step fetch tbs (CallSeek offset whence) s1 = Some s2" for offset whence s2
      using step_last_data_seek [OF that] zero by simp
    with zero show "rewindable (bridge s1) = 0
          \<and> (\<forall>offset whence s2.
                step fetch tbs (CallSeek offset whence) s1 = Some s2 \<longrightarrow>
                  buffer (bridge s2) = buffer (bridge s1)
                  \<and> bytes_buffered (bridge s2) = bytes_buffered (bridge s1))"
      by blast
  qed
  from steps have "step fetch tbs e s = Some s' \<longrightarrow>
      (e = DownloadThread \<or> e = CallTell \<longrightarrow> last_data (bridge s') = last_data (bridge s))
    \<and> (\<forall>amt. e = CallRead amt \<longrightarrow>
          (pops tbs amt (bridge s) \<longrightarrow>
             (\<exists>c rest. buffer (bridge s) = c # rest \<and> buffer (bridge s') = rest
                 \<and> last_data (bridge s') = Some c))
        \<and> (\<not> pops tbs amt (bridge s) \<longrightarrow> bridge s' = bridge s))
    \<and> (\<forall>offset whence. e = CallSeek offset whence \<longrightarrow>
          (if whence = SEEK_END \<and> offset = 0 then last_data (bridge s') = None
           else last_data (bridge s') = last_data (bridge s))
        \<and> (whence = SEEK_SET \<and> offset = last_position (bridge s)
             \<and> offset \<noteq> position (bridge s) \<longrightarrow>
               position (bridge s') = last_position (bridge s')
               \<and> rewindable (bridge s') = 0)
        \<and> (rewindable (bridge s) = 0 \<longrightarrow>
               buffer (bridge s') = buffer (bridge s)
               \<and> bytes_buffered (bridge s') = bytes_buffered (bridge s))
        \<and> (buffer (bridge s') \<noteq> buffer (bridge s) \<longrightarrow>
               (\<exists>c. last_data (bridge s) = Some c
                   \<and> buffer (bridge s') = c # buffer (bridge s))
               \<and> rewindable (bridge s') = 0))
    \<and> (e = SeekStep \<longrightarrow>
          (if (\<exists>offset. caller s = AtAliveTest offset) \<and> download_thread (bridge s) = Exited
           then last_data (bridge s') = None \<and> caller s' = Idle
           else last_data (bridge s') = last_data (bridge s)))"
    by (rule impI)
  then show ?thesis using runs by (rule conjI)
qed

theorem last_data_changes_witness:
  "step (fetch_client 3 ''abcde'') 8192 (CallSeek 0 SEEK_SET)
     \<lparr>bridge = \<lparr>position = 3, buffer = [], bytes_buffered = 0, max_buffer_size = 1048576,
        last_position = 0, last_data = Some ''abc'', src_obj_size = 5,
        download_thread = InGet OpenEnded 0 [''de''] False, stop_download = False\<rparr>,
      caller = Idle\<rparr>
   = Some \<lparr>bridge = \<lparr>position = 0, buffer = [''abc''], bytes_buffered = 3,
        max_buffer_size = 1048576, last_position = 0, last_data = Some ''abc'',
        src_obj_size = 5, download_thread = InGet OpenEnded 0 [''de''] False,
        stop_download = False\<rparr>,
      caller = Idle\<rparr>
   \<and> run (fetch_client 3 ''abcde'') 8192 [CallSeek 0 SEEK_SET, DownloadThread, CallTell]
       \<lparr>bridge = \<lparr>position = 0, buffer = [''abc''], bytes_buffered = 3,
          max_buffer_size = 1048576, last_position = 0, last_data = Some ''abc'',
          src_obj_size = 5, download_thread = InGet OpenEnded 0 [''de''] False,
          stop_download = False\<rparr>,
        caller = Idle\<rparr>
     = Some \<lparr>bridge = \<lparr>position = 0, buffer = [''abc''], bytes_buffered = 3,
          max_buffer_size = 1048576, last_position = 0, last_data = Some ''abc'',
          src_obj_size = 5, download_thread = InGet OpenEnded 0 [''de''] True,
          stop_download = False\<rparr>,
        caller = Idle\<rparr>
   \<and> rewindable \<lparr>position = 0, buffer = [''abc''], bytes_buffered = 3,
          max_buffer_size = 1048576, last_position = 0, last_data = Some ''abc'',
          src_obj_size = 5, download_thread = InGet OpenEnded 0 [''de''] True,
          stop_download = False\<rparr> = 0"
proof -
  let ?f = "fetch_client 3 ''abcde''"
  let ?b = "\<lparr>position = 3, buffer = [], bytes_buffered = 0, max_buffer_size = 1048576,
        last_position = 0, last_data = Some ''abc'', src_obj_size = 5,
        download_thread = InGet OpenEnded 0 [''de''] False, stop_download = False\<rparr>"
  let ?b' = "\<lparr>position = 0, buffer = [''abc''], bytes_buffered = 3,
        max_buffer_size = 1048576, last_position = 0, last_data = Some ''abc'',
        src_obj_size = 5, download_thread = InGet OpenEnded 0 [''de''] False,
        stop_download = False\<rparr>"
  let ?b1 = "\<lparr>position = 0, buffer = [''abc''], bytes_buffered = 3,
        max_buffer_size = 1048576, last_position = 0, last_data = Some ''abc'',
        src_obj_size = 5, download_thread = InGet OpenEnded 0 [''de''] True,
        stop_download = False\<rparr>"
  let ?es = "[CallSeek 0 SEEK_SET, DownloadThread, CallTell]"
  have st: "step ?f 8192 (CallSeek 0 SEEK_SET) \<lparr>bridge = ?b, caller = Idle\<rparr>
            = Some \<lparr>bridge = ?b', caller = Idle\<rparr>"
    by (simp add: seek_def SEEK_SET_def SEEK_END_def)
  have rn: "run ?f 8192 ?es \<lparr>bridge = ?b', caller = Idle\<rparr> = Some \<lparr>bridge = ?b1, caller = Idle\<rparr>"
    by (simp add: seek_def SEEK_SET_def SEEK_END_def download_step_def write_may_proceed_def)
  have nr: "\<forall>e\<in>set ?es. no_read e" by simp
  note inst = last_data_changes
    [of ?f 8192 "CallSeek 0 SEEK_SET" "\<lparr>bridge = ?b, caller = Idle\<rparr>"
        "\<lparr>bridge = ?b', caller = Idle\<rparr>" "\<lparr>bridge = ?b', caller = Idle\<rparr>" ?es
        "\<lparr>bridge = ?b1, caller = Idle\<rparr>"]
  from inst st have "rewindable ?b' = 0" by simp
  with inst nr rn have "rewindable ?b1 = 0" by simp
  with st rn show ?thesis by simp
qed

theorem last_data_changes_counterexample:
  "run (fetch_client 3 ''abcde'') 8192
     [DownloadThread, DownloadThread, DownloadThread, CallRead (Some 100), CallSeek 0 SEEK_SET]
     (new_system 5)
   = Some \<lparr>bridge = \<lparr>position = 0, buffer = [''abc''], bytes_buffered = 3,
        max_buffer_size = 1048576, last_position = 0, last_data = Some ''abc'',
        src_obj_size = 5, download_thread = InGet OpenEnded 0 [''de''] False,
        stop_download = False\<rparr>,
      caller = Idle\<rparr>"
  by (simp add: new_system_def init_def StartDownloadThread_def download_step_def
        DAISY_CHAIN_CHUNK_SIZE_def fetch_client_def byte_range_def chunks_of.simps write_may_proceed_def
        write_append_def read_def seek_def SEEK_SET_def SEEK_END_def Let_def)

section \<open>The requests of the download thread\<close>

lemma PerformDownload_unfold:
  "PerformDownload n is_set j start =
     (if start + DAISY_CHAIN_CHUNK_SIZE < n then
        (if is_set j then ([window start 0], True)
         else (case PerformDownload n is_set (Suc j) (start + DAISY_CHAIN_CHUNK_SIZE) of
                 (reqs, cleared) \<Rightarrow> (window start 0 # reqs, cleared)))
      else ([(start, None)], False))"
  by (subst PerformDownload.simps) (simp add: window_def)

lemma window_shift:
  "window (start + DAISY_CHAIN_CHUNK_SIZE) i = window start (Suc i)"
  by (simp add: window_def algebra_simps)

lemma map_window_Suc:
  "map (window start) [0..<Suc k]
     = window start 0 # map (window (start + DAISY_CHAIN_CHUNK_SIZE)) [0..<k]"
proof -
  have "[0..<Suc k] = 0 # map Suc [0..<k]"
    by (simp add: upt_conv_Cons map_Suc_upt del: upt_Suc)
  then show ?thesis by (simp add: window_shift comp_def)
qed

lemma PerformDownload_complete:
  "(\<forall>i<k. start + int i * DAISY_CHAIN_CHUNK_SIZE + DAISY_CHAIN_CHUNK_SIZE < n) \<Longrightarrow>
   \<not> start + int k * DAISY_CHAIN_CHUNK_SIZE + DAISY_CHAIN_CHUNK_SIZE < n \<Longrightarrow>
   (\<forall>i<k. \<not> is_set (j + i)) \<Longrightarrow>
   PerformDownload n is_set j start
     = (map (window start) [0..<k] @ [(start + int k * DAISY_CHAIN_CHUNK_SIZE, None)], False)"
proof (induction k arbitrary: start j)
  case 0
  then show ?case by (subst PerformDownload_unfold) simp
next
  case (Suc k)
  let ?R = DAISY_CHAIN_CHUNK_SIZE
  from Suc.prems(1) have first: "start + ?R < n" by force
  from Suc.prems(3) have nostop: "\<not> is_set j" by force
  have a: "\<forall>i<k. (start + ?R) + int i * ?R + ?R < n"
  proof (intro allI impI)
    fix i assume "i < k"
    then have "start + int (Suc i) * ?R + ?R < n" using Suc.prems(1) by blast
    then show "(start + ?R) + int i * ?R + ?R < n" by (simp add: algebra_simps)
  qed
  have b: "\<not> (start + ?R) + int k * ?R + ?R < n"
    using Suc.prems(2) by (simp add: algebra_simps)
  have c: "\<forall>i<k. \<not> is_set (Suc j + i)"
  proof (intro allI impI)
    fix i assume "i < k"
    then have "\<not> is_set (j + Suc i)" using Suc.prems(3) by blast
    then show "\<not> is_set (Suc j + i)" by simp
  qed
  have rest: "PerformDownload n is_set (Suc j) (start + ?R)
     = (map (window (start + ?R)) [0..<k] @ [(start + ?R + int k * ?R, None)], False)"
    by (rule Suc.IH [OF a b c])
  have "PerformDownload n is_set j start
     = (window start 0 # map (window (start + ?R)) [0..<k]
          @ [(start + ?R + int k * ?R, None)], False)"
    by (subst PerformDownload_unfold) (simp add: first nostop rest)
  then show ?case by (simp only: map_window_Suc) (simp add: algebra_simps)
qed

lemma PerformDownload_stopped:
  "(\<forall>i\<le>k. start + int i * DAISY_CHAIN_CHUNK_SIZE + DAISY_CHAIN_CHUNK_SIZE < n) \<Longrightarrow>
   (\<forall>i<k. \<not> is_set (j + i)) \<Longrightarrow> is_set (j + k) \<Longrightarrow>
   PerformDownload n is_set j start = (map (window start) [0..<Suc k], True)"
proof (induction k arbitrary: start j)
  case 0
  then show ?case by (subst PerformDownload_unfold) simp
next
  case (Suc k)
  let ?R = DAISY_CHAIN_CHUNK_SIZE
  from Suc.prems(1) have first: "start + ?R < n" by force
  from Suc.prems(2) have nostop: "\<not> is_set j" by force
  have a: "\<forall>i\<le>k. (start + ?R) + int i * ?R + ?R < n"
  proof (intro allI impI)
    fix i assume "i \<le> k"
    then have "start + int (Suc i) * ?R + ?R < n" using Suc.prems(1) by auto
    then show "(start + ?R) + int i * ?R + ?R < n" by (simp add: algebra_simps)
  qed
  have c: "\<forall>i<k. \<not> is_set (Suc j + i)"
  proof (intro allI impI)
    fix i assume "i < k"
    then have "\<not> is_set (j + Suc i)" using Suc.prems(2) by blast
    then show "\<not> is_set (Suc j + i)" by simp
  qed
  have d: "is_set (Suc j + k)" using Suc.prems(3) by simp
  have rest: "PerformDownload n is_set (Suc j) (start + ?R)
     = (map (window (start + ?R)) [0..<Suc k], True)"
    by (rule Suc.IH [OF a c d])
  have "PerformDownload n is_set j start
     = (window start 0 # map (window (start + ?R)) [0..<Suc k], True)"
    by (subst PerformDownload_unfold) (simp add: first nostop rest)
  then show ?case by (simp only: map_window_Suc)
qed

lemma PerformDownload_case_exists:
  "\<exists>k. ((\<forall>i<k. start + int i * DAISY_CHAIN_CHUNK_SIZE + DAISY_CHAIN_CHUNK_SIZE < n)
          \<and> \<not> start + int k * DAISY_CHAIN_CHUNK_SIZE + DAISY_CHAIN_CHUNK_SIZE < n
          \<and> (\<forall>i<k. \<not> is_set (j + i)))
      \<or> ((\<forall>i\<le>k. start + int i * DAISY_CHAIN_CHUNK_SIZE + DAISY_CHAIN_CHUNK_SIZE < n)
          \<and> (\<forall>i<k. \<not> is_set (j + i)) \<and> is_set (j + k))"
proof (induction n is_set j start rule: PerformDownload.induct)
  case (1 n is_set j start)
  let ?R = DAISY_CHAIN_CHUNK_SIZE
  show ?case
  proof (cases "start + ?R < n")
    case False
    then show ?thesis by (intro exI [of _ 0]) simp
  next
    case first: True
    show ?thesis
    proof (cases "is_set j")
      case True
      with first show ?thesis by (intro exI [of _ 0]) simp
    next
      case False
      from "1.IH" [OF first False] obtain k where k:
        "((\<forall>i<k. (start + ?R) + int i * ?R + ?R < n)
            \<and> \<not> (start + ?R) + int k * ?R + ?R < n
            \<and> (\<forall>i<k. \<not> is_set (Suc j + i)))
         \<or> ((\<forall>i\<le>k. (start + ?R) + int i * ?R + ?R < n)
            \<and> (\<forall>i<k. \<not> is_set (Suc j + i)) \<and> is_set (Suc j + k))"
        by blast
      have shift: "start + int (Suc i) * ?R + ?R = (start + ?R) + int i * ?R + ?R" for i
        by (simp add: algebra_simps)
      have lt: "(\<forall>i<Suc k. P i) \<longleftrightarrow> P 0 \<and> (\<forall>i<k. P (Suc i))" for P :: "nat \<Rightarrow> bool"
        by (metis less_Suc_eq_0_disj)
      have le: "(\<forall>i\<le>Suc k. P i) \<longleftrightarrow> P 0 \<and> (\<forall>i\<le>k. P (Suc i))" for P :: "nat \<Rightarrow> bool"
        by (metis le0 not0_implies_Suc Suc_le_mono)
      from k first False show ?thesis
        by (intro exI [of _ "Suc k"]) (simp only: lt le shift, simp)
    qed
  qed
qed

text \<open>
  The steps of the thread in the two-thread system follow the same program: at the loop
  test a step enters the request that \<^verbatim>\<open>PerformDownload\<close> issues first, and after a
  ranged request a step ends the thread, clearing the stop event, exactly when
  \<^verbatim>\<open>PerformDownload\<close> stops there.
\<close>

lemma thread_step_follows_PerformDownload:
  assumes "src_obj_size b = n"
  shows "download_thread (thread_step fetch (AtLoop start) b) =
           (case hd (fst (PerformDownload n is_set j start)) of
              (s, Some e) \<Rightarrow> InGet Ranged s (fetch s (Some e)) False
            | (s, None) \<Rightarrow> InGet OpenEnded s (fetch s None) False)"
    and "start + DAISY_CHAIN_CHUNK_SIZE < n \<Longrightarrow> stop_download b = is_set j \<Longrightarrow>
         (if is_set j
          then thread_step fetch (InGet Ranged start [] passed) b
                 = b\<lparr>stop_download := False, download_thread := Exited\<rparr>
               \<and> PerformDownload n is_set j start = ([window start 0], True)
          else thread_step fetch (InGet Ranged start [] passed) b
                 = b\<lparr>download_thread := AtLoop (start + DAISY_CHAIN_CHUNK_SIZE)\<rparr>
               \<and> PerformDownload n is_set j start
                   = (window start 0
                        # fst (PerformDownload n is_set (Suc j)
                               (start + DAISY_CHAIN_CHUNK_SIZE)),
                      snd (PerformDownload n is_set (Suc j)
                             (start + DAISY_CHAIN_CHUNK_SIZE))))"
proof -
  show "download_thread (thread_step fetch (AtLoop start) b) =
           (case hd (fst (PerformDownload n is_set j start)) of
              (s, Some e) \<Rightarrow> InGet Ranged s (fetch s (Some e)) False
            | (s, None) \<Rightarrow> InGet OpenEnded s (fetch s None) False)"
    using assms
    by (subst PerformDownload_unfold) (simp add: window_def split: prod.splits)
  show "(if is_set j
          then thread_step fetch (InGet Ranged start [] passed) b
                 = b\<lparr>stop_download := False, download_thread := Exited\<rparr>
               \<and> PerformDownload n is_set j start = ([window start 0], True)
          else thread_step fetch (InGet Ranged start [] passed) b
                 = b\<lparr>download_thread := AtLoop (start + DAISY_CHAIN_CHUNK_SIZE)\<rparr>
               \<and> PerformDownload n is_set j start
                   = (window start 0
                        # fst (PerformDownload n is_set (Suc j)
                               (start + DAISY_CHAIN_CHUNK_SIZE)),
                      snd (PerformDownload n is_set (Suc j)
                             (start + DAISY_CHAIN_CHUNK_SIZE))))"
    if "start + DAISY_CHAIN_CHUNK_SIZE < n" and "stop_download b = is_set j"
    using that
    by (subst (1 2) PerformDownload_unfold) (simp split: prod.splits)
qed

text \<open>
  C4. Started at \<open>start\<close> on a source of \<open>n\<close> bytes, the download thread requests the
  windows \<open>[start + i * RANGE, start + (i + 1) * RANGE - 1]\<close> one after the other while
  more than one window remains, and then, once, the open-ended range to the end of the
  object. After each window it looks at the stop event: when that is set it clears the
  event and returns with no further request. One of the two always is the case.
\<close>

theorem PerformDownload_requests:
  "((\<forall>i<k. start + int i * DAISY_CHAIN_CHUNK_SIZE + DAISY_CHAIN_CHUNK_SIZE < n)
      \<and> \<not> start + int k * DAISY_CHAIN_CHUNK_SIZE + DAISY_CHAIN_CHUNK_SIZE < n
      \<and> (\<forall>i<k. \<not> is_set (j + i))
     \<longrightarrow> PerformDownload n is_set j start
          = (map (window start) [0..<k] @ [(start + int k * DAISY_CHAIN_CHUNK_SIZE, None)],
             False))
   \<and> ((\<forall>i\<le>k. start + int i * DAISY_CHAIN_CHUNK_SIZE + DAISY_CHAIN_CHUNK_SIZE < n)
      \<and> (\<forall>i<k. \<not> is_set (j + i)) \<and> is_set (j + k)
     \<longrightarrow> PerformDownload n is_set j start = (map (window start) [0..<Suc k], True))
   \<and> (\<exists>k'. ((\<forall>i<k'. start + int i * DAISY_CHAIN_CHUNK_SIZE + DAISY_CHAIN_CHUNK_SIZE < n)
            \<and> \<not> start + int k' * DAISY_CHAIN_CHUNK_SIZE + DAISY_CHAIN_CHUNK_SIZE < n
            \<and> (\<forall>i<k'. \<not> is_set (j + i)))
        \<or> ((\<forall>i\<le>k'. start + int i * DAISY_CHAIN_CHUNK_SIZE + DAISY_CHAIN_CHUNK_SIZE < n)
            \<and> (\<forall>i<k'. \<not> is_set (j + i)) \<and> is_set (j + k')))"
  using PerformDownload_complete [of k start n is_set j]
    PerformDownload_stopped [of k start n is_set j]
    PerformDownload_case_exists [of start n is_set j]
  by blast

theorem PerformDownload_requests_witness:
  "PerformDownload 262144000 (\<lambda>i. False) 0 0
     = ([(0, Some 104857599), (104857600, Some 209715199), (209715200, None)], False)
   \<and> PerformDownload 262144000 (\<lambda>i. i = 1) 0 0
     = ([(0, Some 104857599), (104857600, Some 209715199)], True)"
proof -
  have lt2: "(\<forall>i<2. P i) \<longleftrightarrow> P 0 \<and> P (Suc 0)" for P :: "nat \<Rightarrow> bool"
    by (auto simp: numeral_2_eq_2 less_Suc_eq)
  have lt1: "(\<forall>i<Suc 0. P i) \<longleftrightarrow> P 0" for P :: "nat \<Rightarrow> bool"
    by auto
  have le1: "(\<forall>i\<le>Suc 0. P i) \<longleftrightarrow> P 0 \<and> P (Suc 0)" for P :: "nat \<Rightarrow> bool"
    by (auto simp: le_Suc_eq)
  have up2: "[0..<2] = [0, Suc 0]"
    by (simp add: numeral_2_eq_2)
  from PerformDownload_requests [of 2 0 262144000 "\<lambda>i. False" 0]
  have a: "PerformDownload 262144000 (\<lambda>i. False) 0 0
     = ([(0, Some 104857599), (104857600, Some 209715199), (209715200, None)], False)"
    by (simp add: lt2 up2 window_def DAISY_CHAIN_CHUNK_SIZE_def)
  from PerformDownload_requests [of "Suc 0" 0 262144000 "\<lambda>i. i = 1" 0]
  have b: "PerformDownload 262144000 (\<lambda>i. i = 1) 0 0
     = ([(0, Some 104857599), (104857600, Some 209715199)], True)"
    by (simp add: lt1 le1 up2 [unfolded numeral_2_eq_2] window_def DAISY_CHAIN_CHUNK_SIZE_def)
  from a b show ?thesis by simp
qed

section \<open>The bound on the counter\<close>

lemma drain_result:
  "drain buf n = (raised, buf', n') \<Longrightarrow> set buf' \<subseteq> set buf \<and> n' \<le> n"
proof (induction buf arbitrary: n)
  case Nil
  then show ?case by (auto split: if_splits)
next
  case (Cons d ds)
  show ?case
  proof (cases "n = 0")
    case True
    with Cons.prems show ?thesis by auto
  next
    case False
    with Cons.prems have "drain ds (n - int (length d)) = (raised, buf', n')" by simp
    from Cons.IH [OF this] show ?thesis by auto
  qed
qed

lemma rewindable_nonneg: "0 \<le> rewindable b"
  by (simp add: rewindable_def split: option.splits)

lemma in_flight_nonneg: "0 \<le> in_flight t"
  by (cases t rule: in_flight.cases) simp_all

lemma thread_step_buffered_inv:
  "chunk_bound fetch L \<Longrightarrow> buffered_inv L b \<Longrightarrow> download_thread b = t \<Longrightarrow>
   buffered_inv L (thread_step fetch t b)"
proof (induction fetch t b rule: thread_step.induct)
  case (1 fetch start_byte b)
  then show ?case
    by (auto simp: buffered_inv_def chunk_bound_def rewindable_def)
next
  case (2 fetch kind start_byte data rest b)
  then show ?case
    using rewindable_nonneg [of b]
    by (auto simp: buffered_inv_def write_may_proceed_def rewindable_def
             split: option.splits if_splits)
next
  case (3 fetch kind start_byte data rest b)
  then show ?case
    by (cases rest) (auto simp: buffered_inv_def write_append_def rewindable_def)
next
  case (4 fetch start_byte passed b)
  then show ?case
    by (auto simp: buffered_inv_def rewindable_def)
next
  case (5 fetch start_byte passed b)
  then show ?case
    by (auto simp: buffered_inv_def rewindable_def)
next
  case (6 fetch b)
  then show ?case by simp
qed

lemma download_step_buffered_inv:
  "chunk_bound fetch L \<Longrightarrow> buffered_inv L b \<Longrightarrow> buffered_inv L (download_step fetch b)"
  by (simp add: download_step_def thread_step_buffered_inv)

lemma read_buffered_inv:
  assumes "buffered_inv L b" and "read tbs amt b = Returns d b' \<or> read tbs amt b = Raises e b'"
  shows "buffered_inv L b'"
proof (cases "position b = src_obj_size b \<or> amt = Some 0 \<or> amt = None
              \<or> (\<exists>a. amt = Some a \<and> tbs < a)")
  case True
  with assms show ?thesis
    by (auto simp: read_def split: option.splits if_splits)
next
  case False
  then obtain a where amt: "amt = Some a" and a: "\<not> tbs < a" "a \<noteq> 0"
    and pos: "position b \<noteq> src_obj_size b"
    by (cases amt) auto
  with assms(2) obtain data rest where buf: "buffer b = data # rest"
    and b': "b' = b\<lparr>buffer := rest, last_position := position b, last_data := Some data,
                    position := position b + int (length data),
                    bytes_buffered := bytes_buffered b - int (length data)\<rparr>"
    by (auto simp: read_def Let_def split: list.splits if_splits)
  have "rewindable b' \<le> int (length data)"
    by (simp add: b' rewindable_def)
  with assms(1) buf rewindable_nonneg [of b] show ?thesis
    by (simp add: b' buffered_inv_def)
qed

lemma seek_buffered_inv:
  assumes "buffered_inv L b"
    and "seek offset whence b = Returns r b' \<or> seek offset whence b = Raises e b'"
  shows "buffered_inv L b'"
  using assms rewindable_nonneg [of b]
  by (auto simp: seek_def buffered_inv_def rewindable_def
           split: if_splits option.splits)

lemma seek_finish_buffered_inv:
  "0 \<le> L \<Longrightarrow> buffered_inv L b \<Longrightarrow> buffered_inv L (seek_finish offset b)"
  by (simp add: seek_finish_def StartDownloadThread_def buffered_inv_def rewindable_def)

lemma drain_buffered_inv:
  assumes "buffered_inv L b" and "drain (buffer b) (bytes_buffered b) = (raised, buf, n)"
  shows "buffered_inv L (b\<lparr>buffer := buf, bytes_buffered := n\<rparr>)"
proof -
  from drain_result [OF assms(2)] have "set buf \<subseteq> set (buffer b)" "n \<le> bytes_buffered b"
    by simp_all
  with assms(1) show ?thesis
    by (auto simp: buffered_inv_def rewindable_def)
qed

lemma step_buffered_inv:
  assumes cb: "chunk_bound fetch L" and L: "0 \<le> L" and inv: "buffered_inv L (bridge s)"
    and st: "step fetch tbs e s = Some s'"
  shows "buffered_inv L (bridge s')"
proof (cases e)
  case DownloadThread
  with st download_step_buffered_inv [OF cb inv] show ?thesis
    by (auto split: if_splits)
next
  case (CallRead amt)
  with st inv show ?thesis
    by (auto split: if_splits outcome.splits intro: read_buffered_inv)
next
  case CallTell
  with st inv show ?thesis by (auto split: if_splits)
next
  case (CallSeek offset whence)
  with st inv show ?thesis
    by (auto split: if_splits outcome.splits intro: seek_buffered_inv)
next
  case SeekStep
  show ?thesis
  proof (cases "caller s")
    case Idle
    with st SeekStep show ?thesis by simp
  next
    case (AtSignal offset)
    with st SeekStep inv show ?thesis
      by (auto simp: buffered_inv_def rewindable_def)
  next
    case (AtAliveTest offset)
    with st SeekStep inv seek_finish_buffered_inv [OF L inv] show ?thesis
      by (auto split: if_splits)
  next
    case (AtDrain offset)
    with st SeekStep inv show ?thesis
      by (auto split: prod.splits dest: drain_buffered_inv)
  qed
qed

lemma run_buffered_inv:
  "chunk_bound fetch L \<Longrightarrow> 0 \<le> L \<Longrightarrow> buffered_inv L (bridge s) \<Longrightarrow>
   run fetch tbs es s = Some s' \<Longrightarrow> buffered_inv L (bridge s')"
proof (induction es arbitrary: s)
  case Nil
  then show ?case by simp
next
  case (Cons e es)
  from Cons.prems(4) obtain s1 where s1: "step fetch tbs e s = Some s1"
    and rest: "run fetch tbs es s1 = Some s'"
    by (auto split: option.splits)
  from step_buffered_inv [OF Cons.prems(1,2,3) s1] Cons.IH [OF Cons.prems(1,2) _ rest]
  show ?case by simp
qed

lemma init_buffered_inv: "0 \<le> L \<Longrightarrow> buffered_inv L (init n)"
  by (simp add: init_def StartDownloadThread_def buffered_inv_def rewindable_def)

text \<open>
  C5, as the code has it. In every state that the download thread and the consumer can
  reach from a new wrapper, by any interleaving of their steps, the counter stays below
  the capacity plus twice the longest chunk: a call of \<^verbatim>\<open>write\<close> starts to append only
  after it has seen the counter below the capacity, and on top of the chunk it appends,
  one seek to the last position can put the last chunk read back into the queue.
\<close>

theorem bytes_buffered_bound:
  assumes "chunk_bound fetch L" and "0 \<le> L"
    and "run fetch tbs es (new_system n) = Some s"
  shows "bytes_buffered (bridge s) \<le> max_buffer_size (bridge s) - 1 + 2 * L"
proof -
  have "buffered_inv L (bridge (new_system n))"
    using assms(2) by (simp add: new_system_def init_buffered_inv)
  from run_buffered_inv [OF assms(1,2) this assms(3)]
  show ?thesis
    using rewindable_nonneg [of "bridge s"] in_flight_nonneg [of "download_thread (bridge s)"]
    by (simp add: buffered_inv_def)
qed

lemma chunks_of_length: "c \<in> set (chunks_of k xs) \<Longrightarrow> length c \<le> k"
proof (induction k xs rule: chunks_of.induct)
  case (1 k xs)
  show ?case
  proof (cases "k = 0 \<or> xs = []")
    case True
    with "1.prems" show ?thesis by (subst (asm) chunks_of.simps) simp
  next
    case False
    with "1.prems" have "c = take k xs \<or> c \<in> set (chunks_of k (drop k xs))"
      by (subst (asm) chunks_of.simps) simp
    with "1.IH" [OF False] show ?thesis by auto
  qed
qed

lemma fetch_client_chunk_bound: "chunk_bound (fetch_client k src) (int k)"
  by (auto simp: chunk_bound_def fetch_client_def dest: chunks_of_length)

theorem bytes_buffered_bound_witness:
  "chunk_bound (fetch_client 3 ''abcde'') 3
   \<and> run (fetch_client 3 ''abcde'') 8192 [DownloadThread, DownloadThread, DownloadThread]
        (new_system 5)
     = Some \<lparr>bridge = \<lparr>position = 0, buffer = [''abc''], bytes_buffered = 3,
          max_buffer_size = 1048576, last_position = 0, last_data = None,
          src_obj_size = 5, download_thread = InGet OpenEnded 0 [''de''] False,
          stop_download = False\<rparr>,
        caller = Idle\<rparr>
   \<and> (3::int) \<le> 1048576 - 1 + 2 * 3"
proof -
  have cb: "chunk_bound (fetch_client 3 ''abcde'') 3"
    using fetch_client_chunk_bound [of 3 "''abcde''"] by simp
  have rn: "run (fetch_client 3 ''abcde'') 8192 [DownloadThread, DownloadThread, DownloadThread]
        (new_system 5)
     = Some \<lparr>bridge = \<lparr>position = 0, buffer = [''abc''], bytes_buffered = 3,
          max_buffer_size = 1048576, last_position = 0, last_data = None,
          src_obj_size = 5, download_thread = InGet OpenEnded 0 [''de''] False,
          stop_download = False\<rparr>,
        caller = Idle\<rparr>"
    by (simp add: new_system_def init_def StartDownloadThread_def download_step_def
          DAISY_CHAIN_CHUNK_SIZE_def fetch_client_def byte_range_def chunks_of.simps write_may_proceed_def
          write_append_def)
  from bytes_buffered_bound [OF cb _ rn] cb rn show ?thesis by simp
qed


lemma chunks_of_replicate:
  "0 < k \<Longrightarrow> chunks_of k (replicate (q * k) x) = replicate q (replicate k x)"
proof (induction q)
  case 0
  then show ?case by (subst chunks_of.simps) simp
next
  case (Suc q)
  then show ?case by (subst chunks_of.simps) simp
qed

lemma run_two_writes:
  assumes th: "download_thread (bridge s) = InGet kind sb (c # cs) False"
    and room: "bytes_buffered (bridge s) < max_buffer_size (bridge s)"
  shows "run fetch tbs (DownloadThread # DownloadThread # es) s =
     run fetch tbs es
       (s\<lparr>bridge := (bridge s)\<lparr>buffer := buffer (bridge s) @ [c],
            bytes_buffered := bytes_buffered (bridge s) + int (length c),
            download_thread := InGet kind sb cs False\<rparr>\<rparr>)"
  using th room
  by (simp add: download_step_def write_may_proceed_def write_append_def)

lemma run_fill:
  "download_thread (bridge s) = InGet kind sb (replicate j c @ rest) False \<Longrightarrow>
   bytes_buffered (bridge s) + int j * int (length c) - int (length c)
     < max_buffer_size (bridge s) \<Longrightarrow>
   run fetch tbs (replicate (2 * j) DownloadThread @ es) s =
     run fetch tbs es
       (s\<lparr>bridge := (bridge s)\<lparr>buffer := buffer (bridge s) @ replicate j c,
            bytes_buffered := bytes_buffered (bridge s) + int j * int (length c),
            download_thread := InGet kind sb rest False\<rparr>\<rparr>)"
proof (induction j arbitrary: s)
  case 0
  have "(bridge s)\<lparr>buffer := buffer (bridge s), bytes_buffered := bytes_buffered (bridge s),
            download_thread := InGet kind sb rest False\<rparr> = bridge s"
    using "0.prems"(1) by (intro bridge.equality) simp_all
  then show ?case by simp
next
  case (Suc j)
  let ?b = "bridge s"
  let ?s2 = "s\<lparr>bridge := ?b\<lparr>buffer := buffer ?b @ [c],
            bytes_buffered := bytes_buffered ?b + int (length c),
            download_thread := InGet kind sb (replicate j c @ rest) False\<rparr>\<rparr>"
  have j0: "0 \<le> int j * int (length c)" by simp
  from Suc.prems(2) have "bytes_buffered ?b + int j * int (length c) < max_buffer_size ?b"
    by (simp add: algebra_simps)
  with j0 have room: "bytes_buffered ?b < max_buffer_size ?b" by linarith
  from Suc.prems(1) have th: "download_thread ?b = InGet kind sb (c # replicate j c @ rest) False"
    by simp
  have "run fetch tbs (replicate (2 * Suc j) DownloadThread @ es) s
      = run fetch tbs (DownloadThread # DownloadThread # replicate (2 * j) DownloadThread @ es) s"
    by simp
  also have "\<dots> = run fetch tbs (replicate (2 * j) DownloadThread @ es) ?s2"
    by (rule run_two_writes [OF th room])
  also have "\<dots> = run fetch tbs es
       (?s2\<lparr>bridge := (bridge ?s2)\<lparr>buffer := buffer (bridge ?s2) @ replicate j c,
            bytes_buffered := bytes_buffered (bridge ?s2) + int j * int (length c),
            download_thread := InGet kind sb rest False\<rparr>\<rparr>)"
  proof (rule Suc.IH)
    show "download_thread (bridge ?s2) = InGet kind sb (replicate j c @ rest) False" by simp
    from Suc.prems(2)
    show "bytes_buffered (bridge ?s2) + int j * int (length c) - int (length c)
            < max_buffer_size (bridge ?s2)"
      by (simp add: algebra_simps)
  qed
  also have "?s2\<lparr>bridge := (bridge ?s2)\<lparr>buffer := buffer (bridge ?s2) @ replicate j c,
            bytes_buffered := bytes_buffered (bridge ?s2) + int j * int (length c),
            download_thread := InGet kind sb rest False\<rparr>\<rparr>
      = s\<lparr>bridge := ?b\<lparr>buffer := buffer ?b @ replicate (Suc j) c,
            bytes_buffered := bytes_buffered ?b + int (Suc j) * int (length c),
            download_thread := InGet kind sb rest False\<rparr>\<rparr>"
    by (simp add: algebra_simps replicate_app_Cons_same)
  finally show ?case .
qed

theorem bytes_buffered_bound_counterexample:
  "run (fetch_client 8191 (replicate 1073021 CHR ''a'')) 8192
     (DownloadThread # replicate 258 DownloadThread
      @ [CallRead (Some 8192), DownloadThread, DownloadThread, CallSeek 0 SEEK_SET])
     (new_system 1073021)
   = Some \<lparr>bridge = \<lparr>position = 0,
        buffer = replicate 130 (replicate 8191 CHR ''a''),
        bytes_buffered = 1064830, max_buffer_size = 1048576, last_position = 0,
        last_data = Some (replicate 8191 CHR ''a''), src_obj_size = 1073021,
        download_thread = InGet OpenEnded 0 [replicate 8191 CHR ''a''] False,
        stop_download = False\<rparr>,
      caller = Idle\<rparr>
   \<and> (1064830::int) > 1048576 + 8191"
proof -
  let ?c = "replicate 8191 CHR ''a''"
  let ?f = "fetch_client 8191 (replicate 1073021 CHR ''a'')"
  let ?tail = "[CallRead (Some 8192), DownloadThread, DownloadThread, CallSeek 0 SEEK_SET]"
  let ?b1 = "\<lparr>position = 0, buffer = [], bytes_buffered = 0, max_buffer_size = 1048576,
        last_position = 0, last_data = None, src_obj_size = 1073021,
        download_thread = InGet OpenEnded 0 (replicate 129 ?c @ replicate 2 ?c) False,
        stop_download = False\<rparr>"
  let ?b2 = "\<lparr>position = 0, buffer = replicate 129 ?c, bytes_buffered = 1056639,
        max_buffer_size = 1048576, last_position = 0, last_data = None,
        src_obj_size = 1073021,
        download_thread = InGet OpenEnded 0 (replicate 2 ?c) False,
        stop_download = False\<rparr>"
  let ?b3 = "\<lparr>position = 8191, buffer = replicate 128 ?c, bytes_buffered = 1048448,
        max_buffer_size = 1048576, last_position = 0, last_data = Some ?c,
        src_obj_size = 1073021,
        download_thread = InGet OpenEnded 0 (?c # [?c]) False,
        stop_download = False\<rparr>"
  let ?b4 = "\<lparr>position = 8191, buffer = replicate 128 ?c @ [?c], bytes_buffered = 1056639,
        max_buffer_size = 1048576, last_position = 0, last_data = Some ?c,
        src_obj_size = 1073021,
        download_thread = InGet OpenEnded 0 [?c] False,
        stop_download = False\<rparr>"
  let ?b5 = "\<lparr>position = 0, buffer = replicate 130 ?c, bytes_buffered = 1064830,
        max_buffer_size = 1048576, last_position = 0, last_data = Some ?c,
        src_obj_size = 1073021,
        download_thread = InGet OpenEnded 0 [?c] False,
        stop_download = False\<rparr>"
  have chunks: "chunks_of 8191 (replicate 1073021 CHR ''a'') = replicate 129 ?c @ replicate 2 ?c"
    using chunks_of_replicate [of 8191 131 "CHR ''a''"]
    by (simp add: replicate_add [symmetric])
  have r129: "replicate 129 ?c = ?c # replicate 128 ?c"
    using replicate_Suc [of 128 ?c] by simp
  have r2: "replicate 2 ?c = ?c # [?c]"
    by (simp add: numeral_2_eq_2)
  have r130: "?c # replicate 128 ?c @ [?c] = replicate 130 ?c"
    using replicate_Suc [of 129 ?c] r129 by (simp add: replicate_append_same)
  have "run ?f 8192 (DownloadThread # replicate 258 DownloadThread @ ?tail)
          (new_system 1073021)
      = run ?f 8192 (replicate (2 * 129) DownloadThread @ ?tail) \<lparr>bridge = ?b1, caller = Idle\<rparr>"
    by (simp add: new_system_def init_def StartDownloadThread_def download_step_def
          DAISY_CHAIN_CHUNK_SIZE_def fetch_client_def byte_range_def chunks)
  also have "\<dots> = run ?f 8192 ?tail \<lparr>bridge = ?b2, caller = Idle\<rparr>"
    by (subst run_fill [where kind = OpenEnded and sb = 0 and c = ?c and rest = "replicate 2 ?c"])
       simp_all
  also have "\<dots> = run ?f 8192 [DownloadThread, DownloadThread, CallSeek 0 SEEK_SET]
                     \<lparr>bridge = ?b3, caller = Idle\<rparr>"
    by (simp add: read_def Let_def r129 r2)
  also have "\<dots> = run ?f 8192 [CallSeek 0 SEEK_SET] \<lparr>bridge = ?b4, caller = Idle\<rparr>"
    by (subst run_two_writes [where kind = OpenEnded and sb = 0 and c = ?c and cs = "[?c]"])
       simp_all
  also have "\<dots> = Some \<lparr>bridge = ?b5, caller = Idle\<rparr>"
    by (simp add: seek_def SEEK_SET_def SEEK_END_def r130)
  finally show ?thesis by simp
qed

section \<open>The position stays within the source\<close>

lemma byte_count_simps [simp]:
  "byte_count [] = 0" "byte_count (c # cs) = int (length c) + byte_count cs"
  "byte_count (cs @ ds) = byte_count cs + byte_count ds"
  by (simp_all add: byte_count_def)

lemma byte_count_nonneg: "0 \<le> byte_count cs"
  by (induction cs) simp_all

lemma byte_count_concat: "byte_count cs = int (length (concat cs))"
  by (induction cs) simp_all

lemma delivers_ranged:
  assumes "delivers fetch src" and "0 \<le> start"
  shows "byte_count (fetch start (Some (start + DAISY_CHAIN_CHUNK_SIZE - 1))) \<le> DAISY_CHAIN_CHUNK_SIZE"
proof -
  have "concat (fetch start (Some (start + DAISY_CHAIN_CHUNK_SIZE - 1)))
      = take (nat DAISY_CHAIN_CHUNK_SIZE) (drop (nat start) src)"
    using assms by (simp add: delivers_def byte_range_def)
  then show ?thesis
    by (simp add: byte_count_concat DAISY_CHAIN_CHUNK_SIZE_def)
qed

lemma delivers_open:
  assumes "delivers fetch src" and "0 \<le> start" and "start \<le> int (length src)"
  shows "byte_count (fetch start None) = int (length src) - start"
proof -
  have "concat (fetch start None) = drop (nat start) src"
    using assms by (simp add: delivers_def byte_range_def)
  then show ?thesis
    using assms by (simp add: byte_count_concat)
qed

lemma write_end_le: "thread_ok n t \<Longrightarrow> write_end n t \<le> n"
proof (induction n t rule: write_end.induct)
  case (2 n start_byte cs passed)
  with byte_count_nonneg [of cs] show ?case by simp
next
  case (3 n start_byte cs passed)
  with byte_count_nonneg [of cs] show ?case by simp
qed simp_all

lemma thread_step_slack:
  assumes "delivers fetch src" and "int (length src) = n"
    and "src_obj_size b = n" and "thread_ok n t" and "download_thread b = t"
  shows "thread_ok n (download_thread (thread_step fetch t b))
       \<and> write_end n t - byte_count (buffer b)
          \<le> write_end n (download_thread (thread_step fetch t b))
              - byte_count (buffer (thread_step fetch t b))"
  using assms
proof (induction fetch t b rule: thread_step.induct)
  case (1 fetch start_byte b)
  then show ?case
    using delivers_ranged [of fetch src start_byte] delivers_open [of fetch src start_byte]
    by auto
next
  case (2 fetch kind start_byte data rest b)
  then show ?case by (cases kind) auto
next
  case (3 fetch kind start_byte data rest b)
  then show ?case by (cases kind) (auto simp: write_append_def)
next
  case (4 fetch start_byte passed b)
  then show ?case by (auto simp: DAISY_CHAIN_CHUNK_SIZE_def)
next
  case (5 fetch start_byte passed b)
  then show ?case by auto
next
  case (6 fetch b)
  then show ?case by auto
qed

lemma drain_byte_count:
  "drain buf n = (raised, buf', n') \<Longrightarrow> byte_count buf' \<le> byte_count buf"
proof (induction buf arbitrary: n)
  case Nil
  then show ?case by (auto split: if_splits)
next
  case (Cons d ds)
  show ?case
  proof (cases "n = 0")
    case True
    with Cons.prems show ?thesis by auto
  next
    case False
    with Cons.prems have "drain ds (n - int (length d)) = (raised, buf', n')" by simp
    from Cons.IH [OF this] show ?thesis by simp
  qed
qed

lemma download_step_position_inv:
  assumes dl: "delivers fetch src" and len: "int (length src) = n"
    and inv: "position_inv n s"
  shows "position_inv n (s\<lparr>bridge := download_step fetch (bridge s)\<rparr>)"
proof -
  let ?b = "bridge s" and ?b' = "download_step fetch (bridge s)"
  from inv have size: "src_obj_size ?b = n" and ok: "thread_ok n (download_thread ?b)"
    by (simp_all add: position_inv_def)
  from thread_step_slack [OF dl len size ok refl]
  have ok': "thread_ok n (download_thread ?b')"
    and slack: "write_end n (download_thread ?b) - byte_count (buffer ?b)
                \<le> write_end n (download_thread ?b') - byte_count (buffer ?b')"
    by (simp_all add: download_step_def)
  from download_step_keeps [of fetch ?b]
  have keep: "position ?b' = position ?b" "src_obj_size ?b' = src_obj_size ?b"
    "last_position ?b' = last_position ?b" "last_data ?b' = last_data ?b"
    by simp_all
  from inv ok' slack show ?thesis
    by (simp add: position_inv_def keep) linarith
qed

lemma read_position_inv:
  assumes inv: "position_inv n s"
    and rd: "read tbs amt (bridge s) = Returns d b' \<or> read tbs amt (bridge s) = Raises e b'"
  shows "position_inv n (s\<lparr>bridge := b'\<rparr>)"
proof (cases "b' = bridge s")
  case True
  with inv show ?thesis by simp
next
  case False
  let ?b = "bridge s"
  from False rd obtain data rest where buf: "buffer ?b = data # rest"
    and pos: "position ?b \<noteq> src_obj_size ?b"
    and b': "b' = ?b\<lparr>buffer := rest, last_position := position ?b, last_data := Some data,
                    position := position ?b + int (length data),
                    bytes_buffered := bytes_buffered ?b - int (length data)\<rparr>"
    by (auto simp: read_def Let_def split: if_splits option.splits list.splits)
  from inv have ok: "thread_ok n (download_thread ?b)"
    by (simp add: position_inv_def)
  from inv pos buf write_end_le [OF ok] byte_count_nonneg [of rest] show ?thesis
    by (simp add: position_inv_def b')
qed

lemma seek_position_inv:
  assumes inv: "position_inv n s" and idle: "caller s = Idle"
    and within: "seek_within n (CallSeek offset whence)"
    and sk: "seek offset whence (bridge s) = Returns r b'"
  shows "position_inv n
           (s\<lparr>bridge := b', caller := (if r then AtSignal offset else Idle)\<rparr>)"
proof -
  let ?b = "bridge s"
  from inv have ok: "thread_ok n (download_thread ?b)"
    by (simp add: position_inv_def)
  note facts = write_end_le [OF ok] byte_count_nonneg [of "buffer ?b"]
  show ?thesis
  proof (cases "whence = SEEK_END")
    case True
    with sk inv idle show ?thesis
      by (auto simp: seek_def position_inv_def split: if_splits)
  next
    case False
    with sk have set: "whence = SEEK_SET"
      by (auto simp: seek_def split: if_splits)
    with within have off: "0 \<le> offset" "offset \<le> n" by simp_all
    show ?thesis
    proof (cases "offset = position ?b")
      case True
      with sk inv idle set False show ?thesis
        by (auto simp: seek_def position_inv_def)
    next
      case np: False
      show ?thesis
      proof (cases "offset = last_position ?b")
        case False
        with np sk inv idle set off \<open>whence \<noteq> SEEK_END\<close> show ?thesis
          by (auto simp: seek_def position_inv_def)
      next
        case True
        with np sk inv idle set off facts \<open>whence \<noteq> SEEK_END\<close> show ?thesis
          by (cases "last_data ?b")
             (auto simp: seek_def position_inv_def split: if_splits)
      qed
    qed
  qed
qed

lemma seek_step_position_inv:
  assumes inv: "position_inv n s" and st: "step fetch tbs SeekStep s = Some s'"
  shows "position_inv n s'"
proof (cases "caller s")
  case Idle
  with st show ?thesis by simp
next
  case (AtSignal offset)
  with st inv show ?thesis
    by (auto simp: position_inv_def)
next
  case (AtAliveTest offset)
  with st inv show ?thesis
    by (auto simp: position_inv_def seek_finish_def StartDownloadThread_def
             split: if_splits)
next
  case (AtDrain offset)
  with st obtain raised buf m where
    dr: "drain (buffer (bridge s)) (bytes_buffered (bridge s)) = (raised, buf, m)"
    and s': "s' = s\<lparr>bridge := (bridge s)\<lparr>buffer := buf, bytes_buffered := m\<rparr>,
                    caller := (case raised of None \<Rightarrow> AtAliveTest offset | Some e \<Rightarrow> Idle)\<rparr>"
    by (auto split: prod.splits)
  from drain_byte_count [OF dr] inv AtDrain show ?thesis
    by (cases raised) (auto simp: position_inv_def s')
qed

lemma step_position_inv:
  assumes dl: "delivers fetch src" and len: "int (length src) = n"
    and inv: "position_inv n s" and within: "seek_within n e"
    and st: "step fetch tbs e s = Some s'"
  shows "position_inv n s'"
proof (cases e)
  case DownloadThread
  with st download_step_position_inv [OF dl len inv] show ?thesis
    by (auto split: if_splits)
next
  case (CallRead amt)
  with st inv show ?thesis
    by (auto split: if_splits outcome.splits intro: read_position_inv)
next
  case CallTell
  with st inv show ?thesis by (auto split: if_splits)
next
  case (CallSeek offset whence)
  show ?thesis
  proof (cases "seek offset whence (bridge s)")
    case (Returns r b')
    with st CallSeek have idle: "caller s = Idle"
      and s': "s' = s\<lparr>bridge := b', caller := (if r then AtSignal offset else Idle)\<rparr>"
      by (auto split: if_splits)
    from seek_position_inv [OF inv idle _ Returns] within CallSeek s' show ?thesis
      by simp
  next
    case (Raises err b')
    then have "b' = bridge s"
      by (auto simp: seek_def split: if_splits option.splits)
    with st CallSeek Raises inv show ?thesis
      by (auto split: if_splits)
  next
    case Blocks
    with st CallSeek show ?thesis by (auto split: if_splits)
  qed
next
  case SeekStep
  with st seek_step_position_inv [OF inv] show ?thesis by simp
qed

lemma run_position_inv:
  "delivers fetch src \<Longrightarrow> int (length src) = n \<Longrightarrow> position_inv n s \<Longrightarrow>
   \<forall>e\<in>set es. seek_within n e \<Longrightarrow> run fetch tbs es s = Some s' \<Longrightarrow> position_inv n s'"
proof (induction es arbitrary: s)
  case Nil
  then show ?case by simp
next
  case (Cons e es)
  from Cons.prems(5) obtain s1 where s1: "step fetch tbs e s = Some s1"
    and rest: "run fetch tbs es s1 = Some s'"
    by (auto split: option.splits)
  from Cons.prems(4) have e: "seek_within n e" and es: "\<forall>e\<in>set es. seek_within n e"
    by simp_all
  from step_position_inv [OF Cons.prems(1,2,3) e s1]
  have "position_inv n s1" .
  from Cons.IH [OF Cons.prems(1,2) this es rest] show ?case .
qed

text \<open>
  C6, as the code has it. \<^verbatim>\<open>seek\<close> does not compare its offset with the source, so
  the invariant needs the caller to stay within it. When every seek from the start has
  an offset between 0 and the size of the source, and the fetch client delivers the
  bytes of each requested range of a source of that size, then in every state reached
  from a new wrapper by any interleaving of the download thread with \<^verbatim>\<open>read\<close>,
  \<^verbatim>\<open>tell\<close> and \<^verbatim>\<open>seek\<close>, the position is between 0 and the size of the source.
\<close>

theorem position_within_source:
  assumes "delivers fetch src" and "int (length src) = n"
    and "\<forall>e\<in>set es. seek_within n e"
    and "run fetch tbs es (new_system n) = Some s"
  shows "0 \<le> position (bridge s) \<and> position (bridge s) \<le> src_obj_size (bridge s)"
proof -
  have "0 \<le> n" using assms(2) by auto
  then have "position_inv n (new_system n)"
    by (simp add: position_inv_def new_system_def init_def StartDownloadThread_def)
  from run_position_inv [OF assms(1,2) this assms(3,4)] show ?thesis
    by (simp add: position_inv_def)
qed

lemma concat_chunks_of: "0 < k \<Longrightarrow> concat (chunks_of k xs) = xs"
proof (induction k xs rule: chunks_of.induct)
  case (1 k xs)
  show ?case
  proof (cases "xs = []")
    case True
    then show ?thesis by (subst chunks_of.simps) simp
  next
    case False
    with "1.prems" have "concat (chunks_of k (drop k xs)) = drop k xs"
      by (intro "1.IH") simp_all
    with False "1.prems" show ?thesis
      by (subst chunks_of.simps) simp
  qed
qed

lemma fetch_client_delivers: "0 < k \<Longrightarrow> delivers (fetch_client k src) src"
  by (simp add: delivers_def fetch_client_def concat_chunks_of)

theorem position_within_source_witness:
  "delivers (fetch_client 3 ''abcde'') ''abcde''
   \<and> int (length ''abcde'') = 5
   \<and> run (fetch_client 3 ''abcde'') 8192
        [DownloadThread, DownloadThread, DownloadThread, CallRead (Some 100),
         CallSeek 0 SEEK_END]
        (new_system 5)
     = Some \<lparr>bridge = \<lparr>position = 5, buffer = [], bytes_buffered = 0,
          max_buffer_size = 1048576, last_position = 3, last_data = None,
          src_obj_size = 5, download_thread = InGet OpenEnded 0 [''de''] False,
          stop_download = False\<rparr>,
        caller = Idle\<rparr>
   \<and> (0::int) \<le> 5 \<and> (5::int) \<le> 5"
proof -
  have dl: "delivers (fetch_client 3 ''abcde'') ''abcde''"
    by (simp add: fetch_client_delivers)
  have len: "int (length ''abcde'') = 5" by simp
  have within: "\<forall>e\<in>set [DownloadThread, DownloadThread, DownloadThread, CallRead (Some 100),
                  CallSeek 0 SEEK_END]. seek_within 5 e"
    by (simp add: SEEK_SET_def SEEK_END_def)
  have rn: "run (fetch_client 3 ''abcde'') 8192
        [DownloadThread, DownloadThread, DownloadThread, CallRead (Some 100),
         CallSeek 0 SEEK_END]
        (new_system 5)
     = Some \<lparr>bridge = \<lparr>position = 5, buffer = [], bytes_buffered = 0,
          max_buffer_size = 1048576, last_position = 3, last_data = None,
          src_obj_size = 5, download_thread = InGet OpenEnded 0 [''de''] False,
          stop_download = False\<rparr>,
        caller = Idle\<rparr>"
    by (simp add: new_system_def init_def StartDownloadThread_def download_step_def
          DAISY_CHAIN_CHUNK_SIZE_def fetch_client_def byte_range_def chunks_of.simps
          write_may_proceed_def write_append_def read_def seek_def SEEK_SET_def
          SEEK_END_def Let_def)
  from position_within_source [OF dl len within rn] dl rn show ?thesis
    by simp
qed

theorem position_within_source_counterexample:
  "run (fetch_client 3 ''abc'') 8192
     [DownloadThread, DownloadThread, DownloadThread, DownloadThread,
      CallSeek (- 5) SEEK_SET, SeekStep, SeekStep]
     (new_system 3)
   = Some \<lparr>bridge = \<lparr>position = - 5, buffer = [], bytes_buffered = 0,
        max_buffer_size = 1048576, last_position = 0, last_data = None,
        src_obj_size = 3, download_thread = AtLoop (- 5), stop_download = True\<rparr>,
      caller = Idle\<rparr>
   \<and> run (fetch_client 3 ''abc'') 8192
     [DownloadThread, DownloadThread, DownloadThread, DownloadThread,
      CallSeek 10 SEEK_SET, SeekStep, SeekStep]
     (new_system 3)
   = Some \<lparr>bridge = \<lparr>position = 10, buffer = [], bytes_buffered = 0,
        max_buffer_size = 1048576, last_position = 0, last_data = None,
        src_obj_size = 3, download_thread = AtLoop 10, stop_download = True\<rparr>,
      caller = Idle\<rparr>
   \<and> \<not> (0::int) \<le> - 5 \<and> \<not> (10::int) \<le> 3"
  by (simp add: new_system_def init_def StartDownloadThread_def download_step_def
        DAISY_CHAIN_CHUNK_SIZE_def fetch_client_def byte_range_def chunks_of.simps
        write_may_proceed_def write_append_def seek_def seek_finish_def SEEK_SET_def
        SEEK_END_def Let_def)

section \<open>Seeking to an arbitrary offset\<close>

lemma drain_consistent:
  "drain buf (byte_count buf) = (raised, buf', n') \<Longrightarrow> raised = None \<and> n' = byte_count buf'"
proof (induction buf)
  case Nil
  then show ?case by simp
next
  case (Cons d ds)
  show ?case
  proof (cases "byte_count (d # ds) = 0")
    case True
    with Cons.prems show ?thesis by auto
  next
    case False
    with Cons.prems have "drain ds (byte_count ds) = (raised, buf', n')" by simp
    from Cons.IH [OF this] show ?thesis .
  qed
qed

lemma thread_step_consistent:
  "consistent b \<Longrightarrow> consistent (thread_step fetch t b)"
  by (induction fetch t b rule: thread_step.induct)
     (simp_all add: consistent_def write_append_def)

lemma restarting_step:
  assumes rs: "restarting offset s" and e: "e = DownloadThread \<or> e = SeekStep"
    and st: "step fetch tbs e s = Some s1"
  shows "src_obj_size (bridge s1) = src_obj_size (bridge s)
       \<and> (restarting offset s1
          \<or> (e = SeekStep \<and> caller s1 = Idle
              \<and> bridge s1 = seek_finish offset (bridge s)))"
proof (cases "e = DownloadThread")
  case True
  with st rs thread_step_consistent [of "bridge s" fetch "download_thread (bridge s)"]
    download_step_keeps [of fetch "bridge s"]
  show ?thesis
    by (auto simp: restarting_def download_step_def split: if_splits)
next
  case False
  with e have ev: "e = SeekStep" by simp
  from rs have con: "consistent (bridge s)" by (simp add: restarting_def)
  from rs consider "caller s = AtSignal offset" | "caller s = AtAliveTest offset"
    | "caller s = AtDrain offset"
    by (auto simp: restarting_def)
  then show ?thesis
  proof cases
    case 1
    with st ev con show ?thesis
      by (auto simp: restarting_def consistent_def)
  next
    case 2
    with st ev con show ?thesis
      by (auto simp: restarting_def seek_finish_def StartDownloadThread_def split: if_splits)
  next
    case 3
    with st ev obtain raised buf m where
      dr: "drain (buffer (bridge s)) (bytes_buffered (bridge s)) = (raised, buf, m)"
      and s1: "s1 = s\<lparr>bridge := (bridge s)\<lparr>buffer := buf, bytes_buffered := m\<rparr>,
                      caller := (case raised of None \<Rightarrow> AtAliveTest offset | Some x \<Rightarrow> Idle)\<rparr>"
      by (auto split: prod.splits)
    from dr con have "drain (buffer (bridge s)) (byte_count (buffer (bridge s))) = (raised, buf, m)"
      by (simp add: consistent_def)
    from drain_consistent [OF this] have "raised = None" "m = byte_count buf" by simp_all
    with s1 show ?thesis
      by (simp add: restarting_def consistent_def)
  qed
qed

lemma idle_run:
  "caller s = Idle \<Longrightarrow> set es \<subseteq> {DownloadThread, SeekStep} \<Longrightarrow>
   run fetch tbs es s = Some s1 \<Longrightarrow> caller s1 = Idle"
proof (induction es arbitrary: s)
  case Nil
  then show ?case by simp
next
  case (Cons e es)
  from Cons.prems(3) obtain s2 where s2: "step fetch tbs e s = Some s2"
    and rest: "run fetch tbs es s2 = Some s1"
    by (auto split: option.splits)
  from Cons.prems(2) have "e = DownloadThread \<or> e = SeekStep" by simp
  with s2 Cons.prems(1) have "caller s2 = Idle"
    by (auto split: if_splits)
  from Cons.IH [OF this _ rest] Cons.prems(2) show ?case by simp
qed

lemma restarting_run:
  "restarting offset s \<Longrightarrow> set es \<subseteq> {DownloadThread, SeekStep} \<Longrightarrow>
   run fetch tbs es s = Some s1 \<Longrightarrow> caller s1 \<noteq> Idle \<Longrightarrow>
   restarting offset s1 \<and> src_obj_size (bridge s1) = src_obj_size (bridge s)"
proof (induction es arbitrary: s)
  case Nil
  then show ?case by simp
next
  case (Cons e es)
  from Cons.prems(3) obtain s2 where s2: "step fetch tbs e s = Some s2"
    and rest: "run fetch tbs es s2 = Some s1"
    by (auto split: option.splits)
  from Cons.prems(2) have e: "e = DownloadThread \<or> e = SeekStep"
    and es: "set es \<subseteq> {DownloadThread, SeekStep}" by simp_all
  from restarting_step [OF Cons.prems(1) e s2]
  have size: "src_obj_size (bridge s2) = src_obj_size (bridge s)"
    and alt: "restarting offset s2 \<or> caller s2 = Idle" by auto
  from alt show ?case
  proof
    assume "restarting offset s2"
    from Cons.IH [OF this es rest Cons.prems(4)] size show ?thesis by simp
  next
    assume "caller s2 = Idle"
    from idle_run [OF this es rest] Cons.prems(4) show ?thesis by simp
  qed
qed

lemma delivers_ranged_bytes:
  assumes "delivers fetch src" and "0 \<le> offset"
    and "offset + DAISY_CHAIN_CHUNK_SIZE < int (length src)"
  shows "prefix (concat (fetch offset (Some (offset + DAISY_CHAIN_CHUNK_SIZE - 1))))
           (drop (nat offset) src)
       \<and> concat (fetch offset (Some (offset + DAISY_CHAIN_CHUNK_SIZE - 1))) \<noteq> []"
proof -
  have eq: "concat (fetch offset (Some (offset + DAISY_CHAIN_CHUNK_SIZE - 1)))
      = take (nat DAISY_CHAIN_CHUNK_SIZE) (drop (nat offset) src)"
    using assms(1,2) by (simp add: delivers_def byte_range_def)
  have "nat offset < length src"
    using assms(2,3) by (simp add: DAISY_CHAIN_CHUNK_SIZE_def)
  then have ne: "drop (nat offset) src \<noteq> []" by simp
  have "0 < nat DAISY_CHAIN_CHUNK_SIZE" by (simp add: DAISY_CHAIN_CHUNK_SIZE_def)
  with ne have "take (nat DAISY_CHAIN_CHUNK_SIZE) (drop (nat offset) src) \<noteq> []"
    by simp
  then show ?thesis
    unfolding eq by (simp add: take_is_prefix)
qed

lemma delivers_open_bytes:
  assumes "delivers fetch src" and "0 \<le> offset"
  shows "concat (fetch offset None) = drop (nat offset) src"
  using assms by (simp add: delivers_def byte_range_def)

lemma thread_step_serves_from:
  assumes "delivers fetch src" and "int (length src) = src_obj_size b" and "0 \<le> offset"
    and "serves_from src offset b" and "download_thread b = t"
  shows "serves_from src offset (thread_step fetch t b)"
  using assms
proof (induction fetch t b rule: thread_step.induct)
  case (1 fetch start_byte b)
  then show ?case
    using delivers_ranged_bytes [of fetch src offset] delivers_open_bytes [of fetch src offset]
    by (cases "buffer b") (auto simp: serves_from_def)
next
  case (2 fetch kind start_byte data rest b)
  then show ?case
    by (cases "buffer b") (auto simp: serves_from_def)
next
  case (3 fetch kind start_byte data rest b)
  then show ?case
    by (cases "buffer b") (auto simp: serves_from_def write_append_def dest: append_prefixD)
next
  case (4 fetch start_byte passed b)
  then show ?case
    by (cases "buffer b") (auto simp: serves_from_def)
next
  case (5 fetch start_byte passed b)
  then show ?case
    by (cases "buffer b") (auto simp: serves_from_def)
next
  case (6 fetch b)
  then show ?case by simp
qed

lemma download_steps_serve_from:
  assumes "delivers fetch src" and "int (length src) = src_obj_size b" and "0 \<le> offset"
    and "serves_from src offset b"
  shows "serves_from src offset ((download_step fetch ^^ k) b)"
proof (induction k)
  case 0
  from assms(4) show ?case by simp
next
  case (Suc k)
  let ?b = "(download_step fetch ^^ k) b"
  from download_steps_keep [where fetch = fetch and n = k and b = b] assms(2)
  have "int (length src) = src_obj_size ?b" by simp
  from thread_step_serves_from [OF assms(1) this assms(3) Suc refl] show ?case
    by (simp add: download_step_def)
qed

lemma read_serves_from:
  assumes "serves_from src offset b" and "read tbs amt b = Returns d b'"
  shows "prefix d (drop (nat offset) src)"
  using assms
  by (auto simp: read_def serves_from_def Let_def split: if_splits option.splits list.splits)

lemma run_append:
  "run fetch tbs (es @ fs) s =
     (case run fetch tbs es s of None \<Rightarrow> None | Some s1 \<Rightarrow> run fetch tbs fs s1)"
  by (induction es arbitrary: s) (auto split: option.splits)

text \<open>
  C1. Take a state with a consistent counter in which the consumer calls
  \<^verbatim>\<open>seek(offset)\<close> from the start with an offset that is neither the position nor the last
  position, and let the download thread and the restart block of the call run in any
  order until the call returns. Then the position is \<open>offset\<close>, the queue is empty, the
  counter is 0, the last position is 0, the last chunk is \<^verbatim>\<open>None\<close>, and a new download
  thread has been started at \<open>offset\<close>. Whatever the new thread has done by then, the next
  \<^verbatim>\<open>read\<close> that returns, returns bytes of the source that begin at \<open>offset\<close>, given a
  fetch client that delivers the bytes it is asked for.
\<close>

theorem seek_restart:
  assumes idle: "caller s = Idle" and con: "consistent (bridge s)"
    and np: "offset \<noteq> position (bridge s)" and nl: "offset \<noteq> last_position (bridge s)"
    and evs: "set es \<subseteq> {DownloadThread, SeekStep}"
    and rn: "run fetch tbs (CallSeek offset SEEK_SET # es @ [SeekStep]) s = Some s'"
    and fin: "caller s' = Idle"
  shows "position (bridge s') = offset
       \<and> buffer (bridge s') = []
       \<and> bytes_buffered (bridge s') = 0
       \<and> last_position (bridge s') = 0
       \<and> last_data (bridge s') = None
       \<and> download_thread (bridge s') = AtLoop offset
       \<and> (delivers fetch src \<and> int (length src) = src_obj_size (bridge s) \<and> 0 \<le> offset
            \<longrightarrow> (\<forall>k amt d b''.
                   read tbs amt ((download_step fetch ^^ k) (bridge s')) = Returns d b''
                   \<longrightarrow> prefix d (drop (nat offset) src)))"
proof -
  let ?s0 = "s\<lparr>caller := AtSignal offset\<rparr>"
  have sk: "seek offset SEEK_SET (bridge s) = Returns True (bridge s)"
    using np nl by (simp add: seek_def SEEK_SET_def SEEK_END_def)
  with idle have first: "step fetch tbs (CallSeek offset SEEK_SET) s = Some ?s0"
    by simp
  with rn have "run fetch tbs (es @ [SeekStep]) ?s0 = Some s'" by simp
  then obtain s1 where mid: "run fetch tbs es ?s0 = Some s1"
    and last: "step fetch tbs SeekStep s1 = Some s'"
    by (auto simp: run_append split: option.splits)
  have start: "restarting offset ?s0"
    using con by (simp add: restarting_def)
  from last have "caller s1 \<noteq> Idle" by auto
  from restarting_run [OF start evs mid this]
  have rs1: "restarting offset s1"
    and size: "src_obj_size (bridge s1) = src_obj_size (bridge s)" by simp_all
  from restarting_step [OF rs1 _ last] fin
  have b': "bridge s' = seek_finish offset (bridge s1)"
    by (auto simp: restarting_def)
  have serve: "prefix d (drop (nat offset) src)"
    if dl: "delivers fetch src" and len: "int (length src) = src_obj_size (bridge s)"
      and off: "0 \<le> offset"
      and rd: "read tbs amt ((download_step fetch ^^ k) (bridge s')) = Returns d b''"
    for k amt d b''
  proof -
    have "serves_from src offset (bridge s')"
      by (simp add: b' serves_from_def seek_finish_def StartDownloadThread_def)
    moreover have "int (length src) = src_obj_size (bridge s')"
      using len size by (simp add: b' seek_finish_def StartDownloadThread_def)
    ultimately have "serves_from src offset ((download_step fetch ^^ k) (bridge s'))"
      using dl off by (intro download_steps_serve_from)
    from read_serves_from [OF this rd] show ?thesis .
  qed
  show ?thesis
    using serve by (simp add: b' seek_finish_def StartDownloadThread_def)
qed

theorem seek_restart_witness:
  "caller (new_system 5) = Idle
   \<and> consistent (bridge (new_system 5))
   \<and> 2 \<noteq> position (bridge (new_system 5))
   \<and> 2 \<noteq> last_position (bridge (new_system 5))
   \<and> run (fetch_client 3 ''abcde'') 8192
        (CallSeek 2 SEEK_SET
         # [SeekStep, DownloadThread, DownloadThread, DownloadThread, SeekStep, SeekStep,
            DownloadThread, DownloadThread, DownloadThread]
         @ [SeekStep])
        (new_system 5)
     = Some \<lparr>bridge = \<lparr>position = 2, buffer = [], bytes_buffered = 0,
          max_buffer_size = 1048576, last_position = 0, last_data = None,
          src_obj_size = 5, download_thread = AtLoop 2, stop_download = True\<rparr>,
        caller = Idle\<rparr>
   \<and> delivers (fetch_client 3 ''abcde'') ''abcde''
   \<and> read 8192 (Some 100)
        ((download_step (fetch_client 3 ''abcde'') ^^ 3)
           \<lparr>position = 2, buffer = [], bytes_buffered = 0,
            max_buffer_size = 1048576, last_position = 0, last_data = None,
            src_obj_size = 5, download_thread = AtLoop 2, stop_download = True\<rparr>)
     = Returns ''cde''
         \<lparr>position = 5, buffer = [], bytes_buffered = 0,
          max_buffer_size = 1048576, last_position = 2, last_data = Some ''cde'',
          src_obj_size = 5, download_thread = InGet OpenEnded 2 [] False,
          stop_download = True\<rparr>
   \<and> prefix ''cde'' (drop (nat 2) ''abcde'')"
proof -
  let ?f = "fetch_client 3 ''abcde''"
  let ?es = "[SeekStep, DownloadThread, DownloadThread, DownloadThread, SeekStep, SeekStep,
              DownloadThread, DownloadThread, DownloadThread]"
  let ?b' = "\<lparr>position = 2, buffer = [], bytes_buffered = 0,
            max_buffer_size = 1048576, last_position = 0, last_data = None,
            src_obj_size = 5, download_thread = AtLoop 2, stop_download = True\<rparr>"
  let ?s' = "\<lparr>bridge = ?b', caller = Idle\<rparr>"
  let ?b'' = "\<lparr>position = 5, buffer = [], bytes_buffered = 0,
          max_buffer_size = 1048576, last_position = 2, last_data = Some ''cde'',
          src_obj_size = 5, download_thread = InGet OpenEnded 2 [] False,
          stop_download = True\<rparr>"
  have idle: "caller (new_system 5) = Idle"
    by (simp add: new_system_def)
  have con: "consistent (bridge (new_system 5))"
    by (simp add: new_system_def init_def StartDownloadThread_def consistent_def byte_count_def)
  have np: "2 \<noteq> position (bridge (new_system 5))"
    and nl: "2 \<noteq> last_position (bridge (new_system 5))"
    by (simp_all add: new_system_def init_def StartDownloadThread_def)
  have evs: "set ?es \<subseteq> {DownloadThread, SeekStep}" by simp
  have rn: "run ?f 8192 (CallSeek 2 SEEK_SET # ?es @ [SeekStep]) (new_system 5) = Some ?s'"
    by (simp add: new_system_def init_def StartDownloadThread_def download_step_def
          DAISY_CHAIN_CHUNK_SIZE_def fetch_client_def byte_range_def chunks_of.simps
          write_may_proceed_def write_append_def seek_def seek_finish_def SEEK_SET_def
          SEEK_END_def)
  have fin: "caller ?s' = Idle" by simp
  have dl: "delivers ?f ''abcde''"
    by (simp add: fetch_client_delivers)
  have len: "int (length ''abcde'') = src_obj_size (bridge (new_system 5))"
    by (simp add: new_system_def init_def StartDownloadThread_def)
  have rd: "read 8192 (Some 100) ((download_step ?f ^^ 3) ?b') = Returns ''cde'' ?b''"
    by (simp add: eval_nat_numeral download_step_def DAISY_CHAIN_CHUNK_SIZE_def
          fetch_client_def byte_range_def chunks_of.simps write_may_proceed_def
          write_append_def read_def Let_def)
  from seek_restart [OF idle con np nl evs rn fin, of "''abcde''"] dl len
  have "\<forall>k amt d b''. read 8192 amt ((download_step ?f ^^ k) ?b') = Returns d b''
          \<longrightarrow> prefix d (drop (nat 2) ''abcde'')"
    by simp
  with rd have "prefix ''cde'' (drop (nat 2) ''abcde'')"
    by blast
  with idle con np nl rn dl rd show ?thesis by blast
qed

end
